theory Spec2Isabelle
  imports Main "HOL-Library.Word" "HOL-Library.Product_Lexorder"
begin

unbundle bit_operations_syntax

section \<open>Machine types\<close>

type_synonym u32 = "32 word"
type_synonym u64 = "64 word"

section \<open>Ordered maps (std::map, std::set)\<close>

text \<open>
  A \<open>std::map\<close> is an association list kept in ascending key order, so that a range-for
  over the container is a traversal of the list. \<open>smap_modify f d k m\<close> is the idiom
  \<open>f(m[k])\<close>: \<open>operator[]\<close> finds the entry of \<open>k\<close>, default-constructing it as \<open>d\<close> at
  its sorted position when it is absent, and \<open>f\<close> mutates the entry in place.
  \<open>smap_at f k m\<close> is a mutation through a reference obtained earlier: it changes the
  entry of \<open>k\<close> and never inserts. \<open>map_of\<close> is \<open>find\<close>.
\<close>

fun smap_modify :: "('v \<Rightarrow> 'v) \<Rightarrow> 'v \<Rightarrow> 'k::linorder \<Rightarrow> ('k \<times> 'v) list \<Rightarrow> ('k \<times> 'v) list" where
  "smap_modify f d k [] = [(k, f d)]"
| "smap_modify f d k ((k', v') # m) =
     (if k < k' then (k, f d) # (k', v') # m
      else if k = k' then (k, f v') # m
      else (k', v') # smap_modify f d k m)"

fun smap_at :: "('v \<Rightarrow> 'v) \<Rightarrow> 'k \<Rightarrow> ('k \<times> 'v) list \<Rightarrow> ('k \<times> 'v) list" where
  "smap_at f k [] = []"
| "smap_at f k ((k', v') # m) =
     (if k = k' then (k', f v') # m else (k', v') # smap_at f k m)"

text \<open>The class invariant of \<open>std::map\<close> and \<open>std::set\<close>: strictly ascending keys.\<close>

definition smap_ok :: "('k::linorder \<times> 'v) list \<Rightarrow> bool" where
  "smap_ok m = sorted_wrt (<) (map fst m)"

text \<open>\<open>std::set::insert\<close> on a strictly ascending list.\<close>

fun set_insert :: "'k::linorder \<Rightarrow> 'k list \<Rightarrow> 'k list" where
  "set_insert k [] = [k]"
| "set_insert k (k' # s) =
     (if k < k' then k # k' # s
      else if k = k' then k' # s
      else k' # set_insert k s)"

section \<open>Event codec (profiler_data.h)\<close>

datatype EventType = INSTR_EXECUTE | JUMP | CALL | RETURN | DATA_READ | DATA_WRITE | INSTR_READ

text \<open>\<open>static_cast<uint32_t>(type)\<close>: the enumerator's value.\<close>

fun EventType_value :: "EventType \<Rightarrow> u32" where
  "EventType_value INSTR_EXECUTE = 0x00"
| "EventType_value JUMP = 0x01"
| "EventType_value CALL = 0x02"
| "EventType_value RETURN = 0x03"
| "EventType_value DATA_READ = 0x04"
| "EventType_value DATA_WRITE = 0x05"
| "EventType_value INSTR_READ = 0x06"

text \<open>
  \<open>static_cast<EventType>(v)\<close>: the enumerator with value \<open>v\<close>; \<open>None\<close> stands for a value
  of the underlying type that names no enumerator (no \<open>case\<close> of a \<open>switch\<close> matches it).
\<close>

definition EventType_cast :: "u32 \<Rightarrow> EventType option" where
  "EventType_cast v =
     (if v = 0x00 then Some INSTR_EXECUTE
      else if v = 0x01 then Some JUMP
      else if v = 0x02 then Some CALL
      else if v = 0x03 then Some RETURN
      else if v = 0x04 then Some DATA_READ
      else if v = 0x05 then Some DATA_WRITE
      else if v = 0x06 then Some INSTR_READ
      else None)"

definition GetEventType :: "u32 \<Rightarrow> EventType option" where
  "GetEventType event = EventType_cast (drop_bit 28 event AND 0xF)"

definition GetReturnOffset :: "u32 \<Rightarrow> u32" where
  "GetReturnOffset event = drop_bit 24 event AND 0xF"

definition GetEventAddress :: "u32 \<Rightarrow> u32" where
  "GetEventAddress event = event AND 0x00FFFFFF"

definition MakeEvent :: "EventType \<Rightarrow> u32 \<Rightarrow> u32" where
  "MakeEvent type address = push_bit 24 (EventType_value type) OR (address AND 0x00FFFFFF)"

section \<open>Call-graph builder (ProfilerData)\<close>

record CallInfo =
  call_count :: u64
  inclusive_instructions :: u64
  inclusive_instr_fetches :: u64
  inclusive_data_reads :: u64
  inclusive_data_writes :: u64

definition CallInfo_new :: CallInfo where
  "CallInfo_new = \<lparr>call_count = 0, inclusive_instructions = 0, inclusive_instr_fetches = 0,
     inclusive_data_reads = 0, inclusive_data_writes = 0\<rparr>"

record InstructionCost =
  self_cost :: u64
  instr_fetches :: u64
  data_reads :: u64
  data_writes :: u64
  calls :: "(u32 \<times> CallInfo) list"
  jumps :: "(u32 \<times> CallInfo) list"

definition InstructionCost_new :: InstructionCost where
  "InstructionCost_new = \<lparr>self_cost = 0, instr_fetches = 0, data_reads = 0, data_writes = 0,
     calls = [], jumps = []\<rparr>"

text \<open>
  A frame holds C++ references into the cost table. Entries of a \<open>std::map\<close> never move
  and the table only loses entries in \<open>Clear\<close>, which also empties the stack, so a
  reference is the pair of keys it was taken at: \<open>call_info = (s, t)\<close> stands for
  \<open>instruction_costs_[s].calls[t]\<close>, and a value \<open>(s, t)\<close> in \<open>jump_refs\<close> for
  \<open>instruction_costs_[s].jumps[t]\<close>. A mutation through a reference (\<open>via_call\<close>,
  \<open>via_jump\<close> below) changes the entry the keys name; in the states the builder reaches
  that entry always exists (\<open>wf_state_ProcessEvents\<close>, \<open>via_call_hits\<close>).
\<close>

record CallFrame =
  address :: u32
  caller_pc :: u32
  return_address :: u32
  call_info :: "u32 \<times> u32"
  jump_refs :: "((u32 \<times> u32) \<times> (u32 \<times> u32)) list"

definition CallFrame_new :: "u32 \<Rightarrow> u32 \<Rightarrow> u32 \<Rightarrow> u32 \<times> u32 \<Rightarrow> CallFrame" where
  "CallFrame_new addr caller ret_addr ci =
     \<lparr>address = addr, caller_pc = caller, return_address = ret_addr, call_info = ci,
      jump_refs = []\<rparr>"

text \<open>The members of the class, named without the trailing underscore of the source.\<close>

record ProfilerData =
  instruction_costs :: "(u32 \<times> InstructionCost) list"
  call_stack :: "CallFrame list"
  current_pc :: u32
  total_instructions :: u64

definition ProfilerData_new :: ProfilerData where
  "ProfilerData_new = \<lparr>instruction_costs = [], call_stack = [], current_pc = 0,
     total_instructions = 0\<rparr>"

definition Clear :: "ProfilerData \<Rightarrow> ProfilerData" where
  "Clear s = s\<lparr>instruction_costs := [], call_stack := [], current_pc := 0,
     total_instructions := 0\<rparr>"

text \<open>Mutation of a \<open>CallInfo\<close> through a frame's references.\<close>

definition via_call :: "(CallInfo \<Rightarrow> CallInfo) \<Rightarrow> u32 \<times> u32 \<Rightarrow>
    (u32 \<times> InstructionCost) list \<Rightarrow> (u32 \<times> InstructionCost) list" where
  "via_call f r costs = smap_at (\<lambda>c. c\<lparr>calls := smap_at f (snd r) (calls c)\<rparr>) (fst r) costs"

definition via_jump :: "(CallInfo \<Rightarrow> CallInfo) \<Rightarrow> u32 \<times> u32 \<Rightarrow>
    (u32 \<times> InstructionCost) list \<Rightarrow> (u32 \<times> InstructionCost) list" where
  "via_jump f r costs = smap_at (\<lambda>c. c\<lparr>jumps := smap_at f (snd r) (jumps c)\<rparr>) (fst r) costs"

text \<open>
  The loop \<open>for (auto& frame : call_stack_)\<close> shared by the four counting events: the
  frame's call edge first, then every jump edge active in the frame.
\<close>

definition for_frame :: "(CallInfo \<Rightarrow> CallInfo) \<Rightarrow> CallFrame \<Rightarrow>
    (u32 \<times> InstructionCost) list \<Rightarrow> (u32 \<times> InstructionCost) list" where
  "for_frame f frame costs =
     fold (via_jump f) (map snd (jump_refs frame)) (via_call f (call_info frame) costs)"

definition for_all_frames :: "(CallInfo \<Rightarrow> CallInfo) \<Rightarrow> CallFrame list \<Rightarrow>
    (u32 \<times> InstructionCost) list \<Rightarrow> (u32 \<times> InstructionCost) list" where
  "for_all_frames f st costs = fold (for_frame f) st costs"

definition ProcessInstructionExecute :: "ProfilerData \<Rightarrow> u32 \<Rightarrow> ProfilerData" where
  "ProcessInstructionExecute s addr =
     (let s1 = s\<lparr>current_pc := addr,
                 instruction_costs :=
                   smap_modify (\<lambda>c. c\<lparr>self_cost := self_cost c + 1\<rparr>) InstructionCost_new addr
                     (instruction_costs s),
                 total_instructions := total_instructions s + 1\<rparr>;
          s2 = (if call_stack s1 = [] then
                  s1\<lparr>instruction_costs :=
                       smap_modify
                         (\<lambda>c. c\<lparr>calls := smap_modify (\<lambda>i. i\<lparr>call_count := call_count i + 1\<rparr>)
                                           CallInfo_new addr (calls c)\<rparr>)
                         InstructionCost_new 0 (instruction_costs s1),
                     call_stack := call_stack s1 @ [CallFrame_new addr 0 0 (0, addr)]\<rparr>
                else s1)
      in s2\<lparr>instruction_costs :=
              for_all_frames (\<lambda>i. i\<lparr>inclusive_instructions := inclusive_instructions i + 1\<rparr>)
                (call_stack s2) (instruction_costs s2)\<rparr>)"

definition ProcessJump :: "ProfilerData \<Rightarrow> u32 \<Rightarrow> ProfilerData" where
  "ProcessJump s addr =
     (let pc = current_pc s;
          costs = smap_modify
                    (\<lambda>c. c\<lparr>jumps := smap_modify (\<lambda>i. i\<lparr>call_count := call_count i + 1\<rparr>)
                                      CallInfo_new addr (jumps c)\<rparr>)
                    InstructionCost_new pc (instruction_costs s);
          st = (if call_stack s \<noteq> [] then
                  butlast (call_stack s) @
                    [(last (call_stack s))
                       \<lparr>jump_refs := smap_modify (\<lambda>_. (pc, addr)) (pc, addr) (pc, addr)
                                       (jump_refs (last (call_stack s)))\<rparr>]
                else call_stack s)
      in s\<lparr>instruction_costs := costs, call_stack := st, current_pc := addr\<rparr>)"

definition ProcessCall :: "ProfilerData \<Rightarrow> u32 \<Rightarrow> u32 \<Rightarrow> ProfilerData" where
  "ProcessCall s addr return_offset =
     (let pc = current_pc s;
          costs = smap_modify
                    (\<lambda>c. c\<lparr>calls := smap_modify
                                      (\<lambda>i. if pc \<noteq> 0 then i\<lparr>call_count := call_count i + 1\<rparr> else i)
                                      CallInfo_new addr (calls c)\<rparr>)
                    InstructionCost_new pc (instruction_costs s)
      in s\<lparr>instruction_costs := costs,
           call_stack := call_stack s @ [CallFrame_new addr pc (pc + 2 + return_offset) (pc, addr)],
           current_pc := addr\<rparr>)"

text \<open>
  The backward search of \<open>ProcessReturn\<close>, \<open>for (size_t i = size; i > 0; --i)\<close>: the
  argument is the loop variable \<open>i\<close>, the result is \<open>frames_to_pop\<close> when a frame matches.
  The two diagnostic \<open>printf\<close> calls of the unwinding branch write to standard output
  only and are left out.
\<close>

fun find_return :: "CallFrame list \<Rightarrow> u32 \<Rightarrow> nat \<Rightarrow> nat option" where
  "find_return st a 0 = None"
| "find_return st a (Suc j) =
     (if return_address (st ! j) = a then Some (length st - j) else find_return st a j)"

text \<open>\<open>for (i = 0; i < frames_to_pop; ++i) pop_back()\<close>.\<close>

fun pop_frames :: "nat \<Rightarrow> CallFrame list \<Rightarrow> CallFrame list" where
  "pop_frames 0 st = st"
| "pop_frames (Suc n) st = pop_frames n (butlast st)"

text \<open>\<open>while (!call_stack_.empty()) pop_back()\<close>.\<close>

fun pop_all :: "CallFrame list \<Rightarrow> CallFrame list" where
  "pop_all st = (if st = [] then st else pop_all (butlast st))"

definition ProcessReturn :: "ProfilerData \<Rightarrow> u32 \<Rightarrow> ProfilerData" where
  "ProcessReturn s addr =
     (if call_stack s = [] then s\<lparr>current_pc := addr\<rparr>
      else
        (let st = (if return_address (last (call_stack s)) = addr then butlast (call_stack s)
                   else (case find_return (call_stack s) addr (length (call_stack s)) of
                           Some frames_to_pop \<Rightarrow> pop_frames frames_to_pop (call_stack s)
                         | None \<Rightarrow> pop_all (call_stack s)))
         in s\<lparr>call_stack := st, current_pc := addr\<rparr>))"

definition ProcessDataRead :: "ProfilerData \<Rightarrow> u32 \<Rightarrow> ProfilerData" where
  "ProcessDataRead s addr =
     (let costs = (if current_pc s \<noteq> 0 then
                     smap_modify (\<lambda>c. c\<lparr>data_reads := data_reads c + 1\<rparr>) InstructionCost_new
                       (current_pc s) (instruction_costs s)
                   else instruction_costs s)
      in s\<lparr>instruction_costs :=
             for_all_frames (\<lambda>i. i\<lparr>inclusive_data_reads := inclusive_data_reads i + 1\<rparr>)
               (call_stack s) costs\<rparr>)"

definition ProcessDataWrite :: "ProfilerData \<Rightarrow> u32 \<Rightarrow> ProfilerData" where
  "ProcessDataWrite s addr =
     (let costs = (if current_pc s \<noteq> 0 then
                     smap_modify (\<lambda>c. c\<lparr>data_writes := data_writes c + 1\<rparr>) InstructionCost_new
                       (current_pc s) (instruction_costs s)
                   else instruction_costs s)
      in s\<lparr>instruction_costs :=
             for_all_frames (\<lambda>i. i\<lparr>inclusive_data_writes := inclusive_data_writes i + 1\<rparr>)
               (call_stack s) costs\<rparr>)"

definition ProcessInstrRead :: "ProfilerData \<Rightarrow> u32 \<Rightarrow> ProfilerData" where
  "ProcessInstrRead s addr =
     (let costs = (if current_pc s \<noteq> 0 then
                     smap_modify (\<lambda>c. c\<lparr>instr_fetches := instr_fetches c + 1\<rparr>) InstructionCost_new
                       (current_pc s) (instruction_costs s)
                   else instruction_costs s)
      in s\<lparr>instruction_costs :=
             for_all_frames (\<lambda>i. i\<lparr>inclusive_instr_fetches := inclusive_instr_fetches i + 1\<rparr>)
               (call_stack s) costs\<rparr>)"

definition ProcessEvent :: "ProfilerData \<Rightarrow> u32 \<Rightarrow> ProfilerData" where
  "ProcessEvent s event =
     (let addr = GetEventAddress event in
      case GetEventType event of
        Some INSTR_EXECUTE \<Rightarrow> ProcessInstructionExecute s addr
      | Some JUMP \<Rightarrow> ProcessJump s addr
      | Some CALL \<Rightarrow> ProcessCall s addr (GetReturnOffset event)
      | Some RETURN \<Rightarrow> ProcessReturn s addr
      | Some DATA_READ \<Rightarrow> ProcessDataRead s addr
      | Some DATA_WRITE \<Rightarrow> ProcessDataWrite s addr
      | Some INSTR_READ \<Rightarrow> ProcessInstrRead s addr
      | None \<Rightarrow> s)"

text \<open>\<open>BufferConsumer::ProcessBuffer\<close>: the events of a buffer, in order.\<close>

definition ProcessEvents :: "ProfilerData \<Rightarrow> u32 list \<Rightarrow> ProfilerData" where
  "ProcessEvents s events = foldl ProcessEvent s events"

text \<open>The sum the invariant checker forms over the cost table (\<open>sum_self\<close>), in \<open>uint64_t\<close>.\<close>

definition sum_self :: "(u32 \<times> InstructionCost) list \<Rightarrow> u64" where
  "sum_self costs = sum_list (map (\<lambda>e. self_cost (snd e)) costs)"

section \<open>Function grouper (profiler_grouped)\<close>

text \<open>
  Members whose names are already taken by an earlier record carry a prefix:
  \<open>fc_\<close> for the counters of \<open>FunctionCall\<close>, \<open>instr_address\<close> for
  \<open>GroupedInstruction::address\<close>, \<open>function_calls\<close> for \<open>GroupedFunction::calls\<close> and
  \<open>grouped_total_instructions\<close> for \<open>GroupedProfilerData::total_instructions_\<close>.
\<close>

record FunctionCall =
  caller_address :: u32
  target_function :: u32
  fc_call_count :: u64
  fc_inclusive_instructions :: u64
  fc_inclusive_instr_fetches :: u64
  fc_inclusive_data_reads :: u64
  fc_inclusive_data_writes :: u64

record GroupedInstruction =
  instr_address :: u32
  cost :: InstructionCost

record GroupedFunction =
  entry_address :: u32
  instructions :: "GroupedInstruction list"
  function_calls :: "FunctionCall list"
  total_self_instructions :: u64
  total_self_instr_fetches :: u64
  total_self_data_reads :: u64
  total_self_data_writes :: u64

record GroupedProfilerData =
  "functions" :: "(u32 \<times> GroupedFunction) list"
  entry_points :: "u32 list"
  grouped_total_instructions :: u64

definition GroupedProfilerData_new :: GroupedProfilerData where
  "GroupedProfilerData_new = \<lparr>functions = [], entry_points = [], grouped_total_instructions = 0\<rparr>"

definition GetFunctions :: "GroupedProfilerData \<Rightarrow> (u32 \<times> GroupedFunction) list" where
  "GetFunctions g = functions g"

definition GetEntryPoints :: "GroupedProfilerData \<Rightarrow> u32 list" where
  "GetEntryPoints g = entry_points g"

text \<open>\<open>functions_[entry] = std::move(func)\<close>.\<close>

definition AddFunction :: "GroupedProfilerData \<Rightarrow> u32 \<Rightarrow> GroupedFunction \<Rightarrow> GroupedProfilerData" where
  "AddFunction g entry func = g\<lparr>functions := smap_modify (\<lambda>_. func) func entry (functions g)\<rparr>"

definition SetTotalInstructions :: "GroupedProfilerData \<Rightarrow> u64 \<Rightarrow> GroupedProfilerData" where
  "SetTotalInstructions g total_count = g\<lparr>grouped_total_instructions := total_count\<rparr>"

text \<open>
  \<open>std::set::upper_bound\<close> and \<open>lower_bound\<close>; an iterator is the position it points at,
  \<open>begin()\<close> is position 0 and \<open>end()\<close> the length.
\<close>

fun upper_bound :: "'k::linorder list \<Rightarrow> 'k \<Rightarrow> nat" where
  "upper_bound [] x = 0"
| "upper_bound (e # es) x = (if x < e then 0 else Suc (upper_bound es x))"

fun lower_bound :: "'k::linorder list \<Rightarrow> 'k \<Rightarrow> nat" where
  "lower_bound [] x = 0"
| "lower_bound (e # es) x = (if e < x then Suc (lower_bound es x) else 0)"

text \<open>First loop: every call target is a function entry.\<close>

definition call_targets :: "(u32 \<times> InstructionCost) list \<Rightarrow> u32 list" where
  "call_targets costs =
     fold (\<lambda>entry fe. fold (\<lambda>call_entry fe'. set_insert (fst call_entry) fe') (calls (snd entry)) fe)
       costs []"

text \<open>The test \<open>lower != upper\<close> of the second loop.\<close>

definition crosses :: "u32 list \<Rightarrow> u32 \<Rightarrow> u32 \<Rightarrow> bool" where
  "crosses function_entries source_addr target_addr =
     (let min_addr = min source_addr target_addr;
          max_addr = max source_addr target_addr;
          lower = upper_bound function_entries min_addr;
          upper = lower_bound function_entries max_addr
      in lower \<noteq> upper)"

text \<open>
  Body of the second loop for one jump; the accumulator is the pair
  \<open>(function_entries, cross_boundary_jumps)\<close>.
\<close>

definition jump_step :: "u32 \<Rightarrow> u32 \<Rightarrow> u32 list \<times> (u32 \<times> u32) list \<Rightarrow>
    u32 list \<times> (u32 \<times> u32) list" where
  "jump_step source_addr target_addr acc =
     (if crosses (fst acc) source_addr target_addr
      then (set_insert target_addr (fst acc), set_insert (source_addr, target_addr) (snd acc))
      else acc)"

definition add_jump_targets :: "(u32 \<times> InstructionCost) list \<Rightarrow> u32 list \<Rightarrow>
    u32 list \<times> (u32 \<times> u32) list" where
  "add_jump_targets costs function_entries =
     fold (\<lambda>entry acc. fold (\<lambda>jump_entry acc'. jump_step (fst entry) (fst jump_entry) acc')
                          (jumps (snd entry)) acc)
       costs (function_entries, [])"

text \<open>The set \<open>function_entries\<close> as it stands after both loops.\<close>

definition function_entries_of :: "(u32 \<times> InstructionCost) list \<Rightarrow> u32 list" where
  "function_entries_of costs = fst (add_jump_targets costs (call_targets costs))"

text \<open>Third loop: the largest function entry \<open>\<le> address\<close>, or the address itself.\<close>

definition function_of :: "u32 list \<Rightarrow> u32 \<Rightarrow> u32" where
  "function_of function_entries addr =
     (let it = upper_bound function_entries addr
      in if it \<noteq> 0 then function_entries ! (it - 1) else addr)"

definition map_instructions :: "u32 list \<Rightarrow> (u32 \<times> InstructionCost) list \<Rightarrow> (u32 \<times> u32) list" where
  "map_instructions function_entries costs =
     fold (\<lambda>entry itf. smap_modify (\<lambda>_. function_of function_entries (fst entry)) 0 (fst entry) itf)
       costs []"

text \<open>
  Fourth loop. \<open>instruction_to_function[address]\<close> is read with \<open>operator[]\<close>; the third
  loop has stored every address of the table, so the default 0 is never produced.
\<close>

definition group_instructions :: "(u32 \<times> u32) list \<Rightarrow> (u32 \<times> InstructionCost) list \<Rightarrow>
    (u32 \<times> (u32 \<times> InstructionCost) list) list" where
  "group_instructions itf costs =
     fold (\<lambda>entry tf.
             smap_modify (\<lambda>v. v @ [entry]) []
               (case map_of itf (fst entry) of Some func_addr \<Rightarrow> func_addr | None \<Rightarrow> 0) tf)
       costs []"

definition FunctionCall_of :: "u32 \<Rightarrow> u32 \<Rightarrow> CallInfo \<Rightarrow> FunctionCall" where
  "FunctionCall_of addr target_func info =
     \<lparr>caller_address = addr, target_function = target_func,
      fc_call_count = call_count info,
      fc_inclusive_instructions = inclusive_instructions info,
      fc_inclusive_instr_fetches = inclusive_instr_fetches info,
      fc_inclusive_data_reads = inclusive_data_reads info,
      fc_inclusive_data_writes = inclusive_data_writes info\<rparr>"

definition add_call :: "(u32 \<times> u32) list \<Rightarrow> u32 \<Rightarrow> u32 \<times> CallInfo \<Rightarrow> GroupedFunction \<Rightarrow>
    GroupedFunction" where
  "add_call itf addr call_entry func =
     (case map_of itf (fst call_entry) of
        Some target_func \<Rightarrow>
          func\<lparr>function_calls :=
                 function_calls func @ [FunctionCall_of addr target_func (snd call_entry)]\<rparr>
      | None \<Rightarrow> func)"

definition add_jump :: "(u32 \<times> u32) list \<Rightarrow> (u32 \<times> u32) list \<Rightarrow> u32 \<Rightarrow> u32 \<times> CallInfo \<Rightarrow>
    GroupedFunction \<Rightarrow> GroupedFunction" where
  "add_jump cross_boundary_jumps itf addr jump_entry func =
     (if (addr, fst jump_entry) \<notin> set cross_boundary_jumps then func
      else (case map_of itf (fst jump_entry) of
              Some target_func \<Rightarrow>
                func\<lparr>function_calls :=
                       function_calls func @ [FunctionCall_of addr target_func (snd jump_entry)]\<rparr>
            | None \<Rightarrow> func))"

definition add_instruction :: "(u32 \<times> u32) list \<Rightarrow> (u32 \<times> u32) list \<Rightarrow> u32 \<times> InstructionCost \<Rightarrow>
    GroupedFunction \<Rightarrow> GroupedFunction" where
  "add_instruction cross_boundary_jumps itf instr func =
     (let addr = fst instr; c = snd instr;
          func1 = func\<lparr>instructions := instructions func @ [\<lparr>instr_address = addr, cost = c\<rparr>],
                       total_self_instructions := total_self_instructions func + self_cost c,
                       total_self_instr_fetches := total_self_instr_fetches func + instr_fetches c,
                       total_self_data_reads := total_self_data_reads func + data_reads c,
                       total_self_data_writes := total_self_data_writes func + data_writes c\<rparr>;
          func2 = fold (add_call itf addr) (calls c) func1
      in fold (add_jump cross_boundary_jumps itf addr) (jumps c) func2)"

definition build_function :: "(u32 \<times> u32) list \<Rightarrow> (u32 \<times> u32) list \<Rightarrow> u32 \<Rightarrow>
    (u32 \<times> InstructionCost) list \<Rightarrow> GroupedFunction" where
  "build_function cross_boundary_jumps itf func_addr instrs =
     fold (add_instruction cross_boundary_jumps itf) instrs
       \<lparr>entry_address = func_addr, instructions = [], function_calls = [],
        total_self_instructions = 0, total_self_instr_fetches = 0,
        total_self_data_reads = 0, total_self_data_writes = 0\<rparr>"

definition ConvertToGroupedData :: "ProfilerData \<Rightarrow> GroupedProfilerData" where
  "ConvertToGroupedData d =
     (let grouped = SetTotalInstructions GroupedProfilerData_new (total_instructions d);
          costs = instruction_costs d
      in if costs = [] then grouped
         else
           (let acc = add_jump_targets costs (call_targets costs);
                function_entries = fst acc;
                cross_boundary_jumps = snd acc;
                itf = map_instructions function_entries costs;
                temp_functions = group_instructions itf costs
            in fold (\<lambda>func_entry g.
                       AddFunction g (fst func_entry)
                         (build_function cross_boundary_jumps itf (fst func_entry) (snd func_entry)))
                 temp_functions grouped))"

text \<open>The conservation invariant of the cost table.\<close>

definition counted :: "ProfilerData \<Rightarrow> bool" where
  "counted s = (sum_self (instruction_costs s) = total_instructions s)"

section \<open>Auxiliary notions for the grouper\<close>

text \<open>
  The recorded jumps as pairs \<open>(source, target)\<close>, in the order in which the second loop
  visits them: ascending source, then ascending target.
\<close>

definition all_jumps :: "(u32 \<times> InstructionCost) list \<Rightarrow> (u32 \<times> u32) list" where
  "all_jumps costs =
     concat (map (\<lambda>entry. map (\<lambda>jump_entry. (fst entry, fst jump_entry)) (jumps (snd entry))) costs)"

text \<open>The set \<open>function_entries\<close> at the moment the second loop visits its \<open>n\<close>-th jump.\<close>

definition entries_at :: "(u32 \<times> InstructionCost) list \<Rightarrow> nat \<Rightarrow> u32 list" where
  "entries_at costs n =
     fst (fold (\<lambda>p acc. jump_step (fst p) (snd p) acc) (take n (all_jumps costs))
            (call_targets costs, []))"

text \<open>The key \<open>instruction_to_function[address]\<close> under which the fourth loop files an entry.\<close>

definition owner_key :: "(u32 \<times> u32) list \<Rightarrow> u32 \<times> InstructionCost \<Rightarrow> u32" where
  "owner_key itf entry = (case map_of itf (fst entry) of Some func_addr \<Rightarrow> func_addr | None \<Rightarrow> 0)"

text \<open>The \<open>GroupedInstruction\<close> pushed for a pair \<open>{addr, cost}\<close>.\<close>

definition as_instruction :: "u32 \<times> InstructionCost \<Rightarrow> GroupedInstruction" where
  "as_instruction instr = \<lparr>instr_address = fst instr, cost = snd instr\<rparr>"

text \<open>
  An event stream as the recorders encode it: execute \<open>0x100\<close>, jump to \<open>0x200\<close>, execute
  \<open>0x200\<close>, call \<open>0x1000\<close>, execute \<open>0x1000\<close>, jump to \<open>0x2000\<close>, execute \<open>0x2000\<close>,
  jump to \<open>0x150\<close>.
\<close>

definition crossing_run :: "u32 list" where
  "crossing_run = [0x00000100, 0x10000200, 0x00000200, 0x20001000, 0x00001000, 0x10002000,
     0x00002000, 0x10000150]"

section \<open>Callgrind serializer (profiler_callgrind.cpp)\<close>

text \<open>
  The output stream is the text written to it; every writer below returns the text it
  appends. \<open>operator<<\<close> prints a \<open>uint64_t\<close> in decimal, an \<open>int64_t\<close> in decimal with a
  leading minus sign when negative, and a \<open>uint32_t\<close> under \<open>std::hex\<close> in lower-case
  hexadecimal, all without padding.
\<close>

definition digit_char :: "nat \<Rightarrow> char" where
  "digit_char d =
     (if d = 0 then CHR ''0'' else if d = 1 then CHR ''1'' else if d = 2 then CHR ''2''
      else if d = 3 then CHR ''3'' else if d = 4 then CHR ''4'' else if d = 5 then CHR ''5''
      else if d = 6 then CHR ''6'' else if d = 7 then CHR ''7'' else if d = 8 then CHR ''8''
      else if d = 9 then CHR ''9'' else if d = 10 then CHR ''a'' else if d = 11 then CHR ''b''
      else if d = 12 then CHR ''c'' else if d = 13 then CHR ''d'' else if d = 14 then CHR ''e''
      else CHR ''f'')"

fun show_dec :: "nat \<Rightarrow> string" where
  "show_dec n = (if n < 10 then [digit_char n] else show_dec (n div 10) @ [digit_char (n mod 10)])"

fun show_hex :: "nat \<Rightarrow> string" where
  "show_hex n = (if n < 16 then [digit_char n] else show_hex (n div 16) @ [digit_char (n mod 16)])"

definition put_u64 :: "u64 \<Rightarrow> string" where
  "put_u64 x = show_dec (unat x)"

definition put_i64 :: "int \<Rightarrow> string" where
  "put_i64 x = (if x < 0 then CHR ''-'' # show_dec (nat (- x)) else show_dec (nat x))"

definition put_hex :: "u32 \<Rightarrow> string" where
  "put_hex x = show_hex (unat x)"

definition newline :: string where
  "newline = [CHR 0x0A]"

text \<open>The four sums of \<open>WriteHeader\<close>, in the order instructions, fetches, reads, writes.\<close>

definition header_totals :: "(u32 \<times> GroupedFunction) list \<Rightarrow> u64 \<times> u64 \<times> u64 \<times> u64" where
  "header_totals fs =
     fold (\<lambda>func_entry t.
             (fst t + total_self_instructions (snd func_entry),
              fst (snd t) + total_self_instr_fetches (snd func_entry),
              fst (snd (snd t)) + total_self_data_reads (snd func_entry),
              snd (snd (snd t)) + total_self_data_writes (snd func_entry)))
       fs (0, 0, 0, 0)"

definition summary_line :: "GroupedProfilerData \<Rightarrow> string" where
  "summary_line data =
     (let t = header_totals (GetFunctions data);
          total_instructions' = fst t;
          total_instr_fetches = fst (snd t);
          total_data_reads = fst (snd (snd t));
          total_data_writes = snd (snd (snd t));
          total_cycles = total_instructions' + (total_instr_fetches * 3) +
                         (total_data_reads * 3) + (total_data_writes * 3)
      in ''summary: '' @ put_u64 total_cycles @ '' '' @ put_u64 total_instructions' @ '' '' @
         put_u64 total_data_reads @ '' '' @ put_u64 total_data_writes @ newline)"

definition WriteHeader :: "GroupedProfilerData \<Rightarrow> string" where
  "WriteHeader data =
     ''# callgrind format'' @ newline @
     ''version: 1'' @ newline @
     ''creator: sqlux-profiler'' @ newline @
     ''cmd: sqlux'' @ newline @
     newline @
     ''positions: instr'' @ newline @
     ''events: Cycles Instructions DataReads DataWrites'' @ newline @
     summary_line data @
     newline"

text \<open>
  The position of a self-cost line: absolute for the first line of a block
  (\<open>last_address == 0\<close>), otherwise relative when the difference, taken in \<open>int64_t\<close>, is
  within 1000.
\<close>

definition write_position :: "u32 \<Rightarrow> u32 \<Rightarrow> string" where
  "write_position last_address addr =
     (if last_address = 0 then ''0x'' @ put_hex addr
      else
        (let diff = uint addr - uint last_address
         in if diff > 0 \<and> diff \<le> 1000 then ''+'' @ put_i64 diff
            else if diff < 0 \<and> diff \<ge> - 1000 then put_i64 diff
            else if diff = 0 then ''*''
            else ''0x'' @ put_hex addr))"

text \<open>The self-cost line of one instruction: position, then the four values.\<close>

definition instr_line :: "u32 \<Rightarrow> GroupedInstruction \<Rightarrow> string" where
  "instr_line last_address instr =
     (let c = cost instr;
          cycles = self_cost c + (instr_fetches c * 3) + (data_reads c * 3) + (data_writes c * 3)
      in write_position last_address (instr_address instr) @
         '' '' @ put_u64 cycles @
         '' '' @ put_u64 (self_cost c) @
         '' '' @ put_u64 (data_reads c) @
         '' '' @ put_u64 (data_writes c) @
         newline)"

text \<open>The three lines written for one outgoing call.\<close>

definition call_lines :: "FunctionCall \<Rightarrow> string" where
  "call_lines call =
     (let incl_cycles = fc_inclusive_instructions call + (fc_inclusive_instr_fetches call * 3) +
                        (fc_inclusive_data_reads call * 3) + (fc_inclusive_data_writes call * 3)
      in ''cfn=0x'' @ put_hex (target_function call) @ newline @
         ''calls='' @ put_u64 (fc_call_count call) @ '' 0x'' @ put_hex (target_function call) @ newline @
         ''0x'' @ put_hex (caller_address call) @
         '' '' @ put_u64 incl_cycles @
         '' '' @ put_u64 (fc_inclusive_instructions call) @
         '' '' @ put_u64 (fc_inclusive_data_reads call) @
         '' '' @ put_u64 (fc_inclusive_data_writes call) @
         newline)"

text \<open>
  The loop over the calls found at an address; the result is the text written and the new
  value of \<open>last_address\<close>.
\<close>

fun write_calls :: "FunctionCall list \<Rightarrow> u32 \<Rightarrow> string \<times> u32" where
  "write_calls [] last_address = ([], last_address)"
| "write_calls (call # rest) last_address =
     (let r = write_calls rest (caller_address call)
      in (call_lines call @ fst r, snd r))"

definition calls_by_address_of :: "GroupedFunction \<Rightarrow> (u32 \<times> FunctionCall list) list" where
  "calls_by_address_of func =
     fold (\<lambda>call m. smap_modify (\<lambda>v. v @ [call]) [] (caller_address call) m) (function_calls func) []"

text \<open>The loop over the instructions of one function, from a given \<open>last_address\<close>.\<close>

fun write_instructions :: "(u32 \<times> FunctionCall list) list \<Rightarrow> u32 \<Rightarrow> GroupedInstruction list \<Rightarrow> string" where
  "write_instructions calls_by_address last_address [] = []"
| "write_instructions calls_by_address last_address (instr # rest) =
     (let line = instr_line last_address instr;
          r = (case map_of calls_by_address (instr_address instr) of
                 None \<Rightarrow> ([], instr_address instr)
               | Some cs \<Rightarrow> write_calls cs (instr_address instr))
      in line @ fst r @ write_instructions calls_by_address (snd r) rest)"

definition write_function :: "u32 \<times> GroupedFunction \<Rightarrow> string" where
  "write_function func_entry =
     ''fn=0x'' @ put_hex (fst func_entry) @ newline @
     write_instructions (calls_by_address_of (snd func_entry)) 0 (instructions (snd func_entry)) @
     newline"

definition WriteBody :: "GroupedProfilerData \<Rightarrow> string" where
  "WriteBody data =
     (if GetFunctions data = [] then [] else concat (map write_function (GetFunctions data)))"

text \<open>The text of the file that \<open>WriteToFile\<close> produces when the file can be opened.\<close>

definition WriteToFile :: "GroupedProfilerData \<Rightarrow> string" where
  "WriteToFile data = WriteHeader data @ WriteBody data"






section \<open>Event buffers and the client buffer manager\<close>

definition BUFFER_SIZE :: nat where
  "BUFFER_SIZE = 8192"

definition BUFFER_POOL_SIZE :: nat where
  "BUFFER_POOL_SIZE = 16"

text \<open>
  The array \<open>events[BUFFER_SIZE]\<close> is a function on the indices; only indices below
  \<open>BUFFER_SIZE\<close> are ever written or read.
\<close>

record EventBuffer =
  events :: "nat \<Rightarrow> u32"
  count :: nat

text \<open>
  The state the emitting thread works on: the pool and the two queues of \<open>ProfilerThread\<close>,
  its \<open>running_\<close> flag, \<open>ClientBufferManager::current_buffer_\<close> and the two global pointers.
  An \<open>EventBuffer*\<close> is the index of the buffer in \<open>buffer_pool_\<close>, a \<open>uint32_t*\<close> into a
  buffer is the pair of the buffer and the offset in its \<open>events\<close>, and \<open>nullptr\<close> is
  \<open>None\<close>. The consumer thread is not part of the state: the functions below are the steps
  of the emitting thread alone.
\<close>

record ClientState =
  buffer_pool :: "nat \<Rightarrow> EventBuffer"
  empty_buffers :: "nat list"
  filled_buffers :: "nat list"
  running :: bool
  current_buffer :: "nat option"
  profiler_current_buffer_ptr :: "(nat \<times> nat) option"
  profiler_buffer_end_ptr :: "(nat \<times> nat) option"

definition InitializeEmptyBuffers :: "ClientState \<Rightarrow> ClientState" where
  "InitializeEmptyBuffers s =
     fold (\<lambda>i s'. s'\<lparr>buffer_pool := (buffer_pool s')(i := (buffer_pool s' i)\<lparr>count := 0\<rparr>),
                     empty_buffers := empty_buffers s' @ [i]\<rparr>)
       [0..<BUFFER_POOL_SIZE] (s\<lparr>empty_buffers := []\<rparr>)"

text \<open>\<open>ProfilerThread::Start\<close>, as far as the buffers are concerned.\<close>

definition Start :: "ClientState \<Rightarrow> ClientState" where
  "Start s = (if running s then s else InitializeEmptyBuffers (s\<lparr>running := True\<rparr>))"

definition PushFilledBuffer :: "ClientState \<Rightarrow> nat \<Rightarrow> ClientState" where
  "PushFilledBuffer s buffer = s\<lparr>filled_buffers := filled_buffers s @ [buffer]\<rparr>"

text \<open>
  \<open>GetEmptyBuffer\<close> returns the front of the empty queue. With an empty queue it waits for
  the consumer while the profiler runs, which for the emitting thread alone is not
  returning (\<open>None\<close>); when the profiler is stopped it returns \<open>nullptr\<close>.
\<close>

definition GetEmptyBuffer :: "ClientState \<Rightarrow> (nat option \<times> ClientState) option" where
  "GetEmptyBuffer s =
     (case empty_buffers s of
        [] \<Rightarrow> (if running s then None else Some (None, s))
      | buffer # rest \<Rightarrow> Some (Some buffer, s\<lparr>empty_buffers := rest\<rparr>))"

definition UpdateGlobalPointers :: "ClientState \<Rightarrow> ClientState" where
  "UpdateGlobalPointers s =
     (case current_buffer s of
        Some b \<Rightarrow> s\<lparr>profiler_current_buffer_ptr := Some (b, 0),
                    profiler_buffer_end_ptr := Some (b, BUFFER_SIZE)\<rparr>
      | None \<Rightarrow> s\<lparr>profiler_current_buffer_ptr := None, profiler_buffer_end_ptr := None\<rparr>)"

text \<open>The constructor of \<open>ClientBufferManager\<close>, with the profiler already created.\<close>

definition InitializeClient :: "ClientState \<Rightarrow> ClientState option" where
  "InitializeClient s =
     (case GetEmptyBuffer (s\<lparr>current_buffer := None\<rparr>) of
        None \<Rightarrow> None
      | Some (b, s') \<Rightarrow> Some (UpdateGlobalPointers (s'\<lparr>current_buffer := b\<rparr>)))"

text \<open>
  \<open>SwitchBuffer\<close>, with the profiler created. The count is the pointer difference
  \<open>profiler_current_buffer_ptr - current_buffer_->events\<close>, which is defined only for a
  pointer into the current buffer; anything else is \<open>None\<close>.
\<close>

definition SwitchBuffer :: "ClientState \<Rightarrow> ClientState option" where
  "SwitchBuffer s =
     (let pushed =
            (case current_buffer s of
               None \<Rightarrow> Some s
             | Some b \<Rightarrow>
                 (case profiler_current_buffer_ptr s of
                    None \<Rightarrow> None
                  | Some p \<Rightarrow>
                      if fst p = b then
                        Some (PushFilledBuffer
                                (s\<lparr>buffer_pool := (buffer_pool s)(b := (buffer_pool s b)\<lparr>count := snd p\<rparr>)\<rparr>) b)
                      else None))
      in case pushed of
           None \<Rightarrow> None
         | Some s1 \<Rightarrow>
             (case GetEmptyBuffer s1 of
                None \<Rightarrow> None
              | Some (b', s2) \<Rightarrow> Some (UpdateGlobalPointers (s2\<lparr>current_buffer := b'\<rparr>))))"

definition Profiler_SwitchBuffer :: "ClientState \<Rightarrow> ClientState option" where
  "Profiler_SwitchBuffer s = SwitchBuffer s"

text \<open>
  The body shared by the recorders: \<open>*profiler_current_buffer_ptr++ = v\<close>, then the switch
  when the pointer has reached the end pointer. A store through \<open>nullptr\<close> or past the
  array is \<open>None\<close>.
\<close>

definition store_event :: "u32 \<Rightarrow> ClientState \<Rightarrow> ClientState option" where
  "store_event v s =
     (case profiler_current_buffer_ptr s of
        None \<Rightarrow> None
      | Some p \<Rightarrow>
          if snd p \<ge> BUFFER_SIZE then None
          else
            (let b = fst p;
                 s1 = s\<lparr>buffer_pool :=
                          (buffer_pool s)(b := (buffer_pool s b)
                             \<lparr>events := (events (buffer_pool s b))(snd p := v)\<rparr>),
                        profiler_current_buffer_ptr := Some (b, snd p + 1)\<rparr>
             in if profiler_current_buffer_ptr s1 = profiler_buffer_end_ptr s1
                then Profiler_SwitchBuffer s1 else Some s1))"

text \<open>
  The seven recorders of \<open>profiler_events.h\<close>. The cycle hooks that the last three call
  under \<open>#ifdef PROFILER\<close> are declared in a header that is not part of the sources and
  are taken not to touch the buffers.
\<close>

definition Profiler_RecordInstructionExecute :: "u32 \<Rightarrow> ClientState \<Rightarrow> ClientState option" where
  "Profiler_RecordInstructionExecute addr = store_event ((addr AND 0xffffff) OR 0x00000000)"

definition Profiler_RecordJump :: "u32 \<Rightarrow> ClientState \<Rightarrow> ClientState option" where
  "Profiler_RecordJump addr = store_event ((addr AND 0xffffff) OR 0x10000000)"

definition Profiler_RecordCall :: "u32 \<Rightarrow> u32 \<Rightarrow> ClientState \<Rightarrow> ClientState option" where
  "Profiler_RecordCall addr return_offset =
     store_event ((addr AND 0xffffff) OR 0x20000000 OR push_bit 24 return_offset)"

definition Profiler_RecordReturn :: "u32 \<Rightarrow> ClientState \<Rightarrow> ClientState option" where
  "Profiler_RecordReturn addr = store_event ((addr AND 0xffffff) OR 0x30000000)"

definition Profiler_RecordDataRead :: "u32 \<Rightarrow> ClientState \<Rightarrow> ClientState option" where
  "Profiler_RecordDataRead addr = store_event ((addr AND 0xffffff) OR 0x40000000)"

definition Profiler_RecordDataWrite :: "u32 \<Rightarrow> ClientState \<Rightarrow> ClientState option" where
  "Profiler_RecordDataWrite addr = store_event ((addr AND 0xffffff) OR 0x50000000)"

definition Profiler_RecordInstrRead :: "u32 \<Rightarrow> ClientState \<Rightarrow> ClientState option" where
  "Profiler_RecordInstrRead addr = store_event ((addr AND 0xffffff) OR 0x60000000)"

text \<open>A call of a recorder by the emulator, and a sequence of such calls.\<close>

datatype RecorderCall =
    RecordInstructionExecute u32
  | RecordJump u32
  | RecordCall u32 u32
  | RecordReturn u32
  | RecordDataRead u32
  | RecordDataWrite u32
  | RecordInstrRead u32

fun record_call :: "RecorderCall \<Rightarrow> ClientState \<Rightarrow> ClientState option" where
  "record_call (RecordInstructionExecute a) s = Profiler_RecordInstructionExecute a s"
| "record_call (RecordJump a) s = Profiler_RecordJump a s"
| "record_call (RecordCall a r) s = Profiler_RecordCall a r s"
| "record_call (RecordReturn a) s = Profiler_RecordReturn a s"
| "record_call (RecordDataRead a) s = Profiler_RecordDataRead a s"
| "record_call (RecordDataWrite a) s = Profiler_RecordDataWrite a s"
| "record_call (RecordInstrRead a) s = Profiler_RecordInstrRead a s"

fun record_all :: "RecorderCall list \<Rightarrow> ClientState \<Rightarrow> ClientState option" where
  "record_all [] s = Some s"
| "record_all (c # cs) s = (case record_call c s of None \<Rightarrow> None | Some s' \<Rightarrow> record_all cs s')"

text \<open>The word a recorder call stores.\<close>

fun event_word :: "RecorderCall \<Rightarrow> u32" where
  "event_word (RecordInstructionExecute a) = (a AND 0xffffff) OR 0x00000000"
| "event_word (RecordJump a) = (a AND 0xffffff) OR 0x10000000"
| "event_word (RecordCall a r) = (a AND 0xffffff) OR 0x20000000 OR push_bit 24 r"
| "event_word (RecordReturn a) = (a AND 0xffffff) OR 0x30000000"
| "event_word (RecordDataRead a) = (a AND 0xffffff) OR 0x40000000"
| "event_word (RecordDataWrite a) = (a AND 0xffffff) OR 0x50000000"
| "event_word (RecordInstrRead a) = (a AND 0xffffff) OR 0x60000000"

text \<open>
  The state after \<open>InitializeProfiler\<close>, before the client buffer manager is created; the
  contents of the pool's arrays are arbitrary.
\<close>

definition started :: "(nat \<Rightarrow> EventBuffer) \<Rightarrow> ClientState" where
  "started pool =
     Start \<lparr>buffer_pool = pool, empty_buffers = [], filled_buffers = [], running = False,
            current_buffer = None, profiler_current_buffer_ptr = None,
            profiler_buffer_end_ptr = None\<rparr>"

text \<open>
  A pool of zeroed buffers, and the client state right after \<open>InitializeProfiler\<close> and
  \<open>InitializeClient\<close> on it.
\<close>

definition example_pool :: "nat \<Rightarrow> EventBuffer" where
  "example_pool = (\<lambda>_. \<lparr>events = (\<lambda>_. 0), count = 0\<rparr>)"

definition example_client :: ClientState where
  "example_client =
     (case InitializeClient (started example_pool) of
        Some s \<Rightarrow> s
      | None \<Rightarrow> started example_pool)"

section \<open>Well-formed states of the call-graph builder\<close>

text \<open>
  Validity of the references held by frames. \<open>has_edge calls costs (s, t)\<close> says that
  \<open>instruction_costs_[s].calls[t]\<close> exists, \<open>has_edge jumps\<close> the same for the jump map.
\<close>

definition has_edge :: "(InstructionCost \<Rightarrow> (u32 \<times> CallInfo) list) \<Rightarrow>
    (u32 \<times> InstructionCost) list \<Rightarrow> u32 \<times> u32 \<Rightarrow> bool" where
  "has_edge sel costs r =
     (case map_of costs (fst r) of None \<Rightarrow> False | Some c \<Rightarrow> snd r \<in> fst ` set (sel c))"

text \<open>The two maps inside an entry are strictly ascending.\<close>

definition inner_ok :: "InstructionCost \<Rightarrow> bool" where
  "inner_ok c = (smap_ok (calls c) \<and> smap_ok (jumps c))"

text \<open>The table and all the maps inside it are strictly ascending.\<close>

definition wf_costs :: "(u32 \<times> InstructionCost) list \<Rightarrow> bool" where
  "wf_costs costs = (smap_ok costs \<and> list_all (\<lambda>e. inner_ok (snd e)) costs)"

text \<open>Every reference of a frame resolves.\<close>

definition frame_ok :: "(u32 \<times> InstructionCost) list \<Rightarrow> CallFrame \<Rightarrow> bool" where
  "frame_ok costs frame =
     (has_edge calls costs (call_info frame) \<and>
      list_all (\<lambda>e. has_edge jumps costs (snd e)) (jump_refs frame))"

text \<open>The table is well formed and every frame on the stack has valid references.\<close>

definition wf_state :: "ProfilerData \<Rightarrow> bool" where
  "wf_state s = (wf_costs (instruction_costs s) \<and>
                 list_all (frame_ok (instruction_costs s)) (call_stack s))"

text \<open>A mutation of an entry that keeps its maps ascending and loses no key.\<close>

definition grows :: "(InstructionCost \<Rightarrow> InstructionCost) \<Rightarrow> bool" where
  "grows f = (\<forall>v. (inner_ok v \<longrightarrow> inner_ok (f v)) \<and>
                  fst ` set (calls v) \<subseteq> fst ` set (calls (f v)) \<and>
                  fst ` set (jumps v) \<subseteq> fst ` set (jumps (f v)))"

text \<open>The second table has every edge of the first.\<close>

definition extends :: "(u32 \<times> InstructionCost) list \<Rightarrow> (u32 \<times> InstructionCost) list \<Rightarrow> bool" where
  "extends costs costs' =
     (\<forall>r. (has_edge calls costs r \<longrightarrow> has_edge calls costs' r) \<and>
          (has_edge jumps costs r \<longrightarrow> has_edge jumps costs' r))"

text \<open>The event type a recorder call stands for.\<close>

fun call_type :: "RecorderCall \<Rightarrow> EventType" where
  "call_type (RecordInstructionExecute a) = INSTR_EXECUTE"
| "call_type (RecordJump a) = JUMP"
| "call_type (RecordCall a r) = CALL"
| "call_type (RecordReturn a) = RETURN"
| "call_type (RecordDataRead a) = DATA_READ"
| "call_type (RecordDataWrite a) = DATA_WRITE"
| "call_type (RecordInstrRead a) = INSTR_READ"

section \<open>Properties of the ordered maps\<close>

lemma keys_smap_modify: "fst ` set (smap_modify f d k m) = insert k (fst ` set m)"
  by (induction f d k m rule: smap_modify.induct) (simp_all add: insert_commute)

lemma smap_ok_Cons: "smap_ok ((k, v) # m) \<longleftrightarrow> (\<forall>k' \<in> fst ` set m. k < k') \<and> smap_ok m"
  by (auto simp: smap_ok_def)

lemma smap_ok_smap_modify: "smap_ok m \<Longrightarrow> smap_ok (smap_modify f d k m)"
proof (induction m)
  case Nil
  then show ?case by (simp add: smap_ok_def)
next
  case (Cons e m)
  obtain k' v' where e: "e = (k', v')" by (cases e)
  show ?case
  proof (cases "k < k'")
    case True
    with Cons.prems e show ?thesis by (auto simp: smap_ok_Cons)
  next
    case False
    show ?thesis
    proof (cases "k = k'")
      case True
      with Cons.prems e show ?thesis by (auto simp: smap_ok_Cons)
    next
      case ne: False
      with False have lt: "k' < k" by simp
      from Cons.prems e have ok: "smap_ok m" and all: "\<forall>x \<in> fst ` set m. k' < x"
        by (simp_all add: smap_ok_Cons)
      have "smap_ok ((k', v') # smap_modify f d k m)"
        unfolding smap_ok_Cons keys_smap_modify using lt all Cons.IH [OF ok] by simp
      with False ne e show ?thesis by simp
    qed
  qed
qed

lemma map_of_smap_modify_other: "k' \<noteq> k \<Longrightarrow> map_of (smap_modify f d k m) k' = map_of m k'"
  by (induction f d k m rule: smap_modify.induct) auto

lemma map_of_smap_modify_same:
  "smap_ok m \<Longrightarrow>
   map_of (smap_modify f d k m) k = Some (f (case map_of m k of None \<Rightarrow> d | Some v \<Rightarrow> v))"
proof (induction m)
  case Nil
  then show ?case by simp
next
  case (Cons e m)
  obtain k' v' where e: "e = (k', v')" by (cases e)
  from Cons.prems e have ok: "smap_ok m" and all: "\<forall>x \<in> fst ` set m. k' < x"
    by (simp_all add: smap_ok_Cons)
  show ?case
  proof (cases "k < k'")
    case True
    then have "k \<notin> fst ` set m" using all by auto
    then have "map_of m k = None" by (simp add: map_of_eq_None_iff)
    with True e show ?thesis by auto
  next
    case False
    then show ?thesis using e Cons.IH [OF ok] by auto
  qed
qed

lemma map_of_smap_modify_hit: "\<exists>v. map_of (smap_modify f d k m) k = Some (f v)"
  by (induction f d k m rule: smap_modify.induct) auto

lemma map_of_smap_at:
  "map_of (smap_at f k m) k' = (if k' = k then map_option f (map_of m k) else map_of m k')"
  by (induction f k m rule: smap_at.induct) auto

lemma keys_smap_at: "map fst (smap_at f k m) = map fst m"
  by (induction f k m rule: smap_at.induct) auto

lemma smap_ok_smap_at: "smap_ok (smap_at f k m) = smap_ok m"
  by (simp add: smap_ok_def keys_smap_at)

section \<open>The event codec\<close>

lemma MakeEvent_address: "GetEventAddress (MakeEvent t a) = a AND 0xFFFFFF"
proof -
  have "push_bit 24 (EventType_value t) AND (0xFFFFFF :: u32) = 0"
    by (cases t) simp_all
  then show ?thesis
    by (simp add: GetEventAddress_def MakeEvent_def bit.conj_disj_distrib2)
qed

lemma MakeEvent_address_small: "a < 2 ^ 24 \<Longrightarrow> GetEventAddress (MakeEvent t a) = a"
proof -
  assume "a < 2 ^ 24"
  then have "a AND mask 24 = a" by (simp add: less_mask_eq)
  then show ?thesis by (simp add: MakeEvent_address mask_eq_exp_minus_1)
qed

lemma MakeEvent_high_nibble: "drop_bit 28 (MakeEvent t a) = 0"
proof -
  have "a AND (0xFFFFFF :: u32) = take_bit 24 a"
    by (simp add: take_bit_eq_mask mask_eq_exp_minus_1)
  then have "drop_bit 28 (a AND (0xFFFFFF :: u32)) = 0"
    by (simp add: drop_bit_take_bit)
  moreover have "drop_bit 28 (push_bit 24 (EventType_value t)) = 0"
    by (cases t) simp_all
  ultimately show ?thesis
    by (simp add: MakeEvent_def drop_bit_or)
qed

lemma GetEventType_MakeEvent: "GetEventType (MakeEvent t a) = Some INSTR_EXECUTE"
  by (simp add: GetEventType_def MakeEvent_high_nibble EventType_cast_def)

text \<open>
  C2. \<open>MakeEvent\<close> puts the type at bit 24 and \<open>GetEventType\<close> reads it at bit 28: the
  event made for a jump to address 0 decodes as an instruction execute, so the type does
  not survive the round trip (the address does, see \<open>MakeEvent_address_small\<close>).
\<close>

theorem MakeEvent_type_not_recovered:
  "GetEventType (MakeEvent JUMP 0) = Some INSTR_EXECUTE \<and>
   GetEventType (MakeEvent JUMP 0) \<noteq> Some JUMP \<and>
   GetEventAddress (MakeEvent JUMP 0) = 0"
  by (simp add: GetEventType_def GetEventAddress_def MakeEvent_def EventType_cast_def)

section \<open>The call-graph builder\<close>

lemma sum_self_smap_modify:
  assumes "\<And>x. self_cost (f x) = self_cost x + c" and "self_cost d = 0"
  shows "sum_self (smap_modify f d k m) = sum_self m + c"
  using assms by (induction f d k m rule: smap_modify.induct) (simp_all add: sum_self_def)

lemma sum_self_smap_at:
  assumes "\<And>x. self_cost (f x) = self_cost x"
  shows "sum_self (smap_at f k m) = sum_self m"
  using assms by (induction f k m rule: smap_at.induct) (simp_all add: sum_self_def)

lemma sum_self_via_call: "sum_self (via_call f r costs) = sum_self costs"
  by (simp add: via_call_def sum_self_smap_at)

lemma sum_self_via_jump: "sum_self (via_jump f r costs) = sum_self costs"
  by (simp add: via_jump_def sum_self_smap_at)

lemma sum_self_fold_via_jump: "sum_self (fold (via_jump f) rs costs) = sum_self costs"
  by (induction rs arbitrary: costs) (simp_all add: sum_self_via_jump)

lemma sum_self_for_frame: "sum_self (for_frame f frame costs) = sum_self costs"
  by (simp add: for_frame_def sum_self_fold_via_jump sum_self_via_call)

lemma sum_self_for_all_frames: "sum_self (for_all_frames f st costs) = sum_self costs"
  unfolding for_all_frames_def
  by (induction st arbitrary: costs) (simp_all add: sum_self_for_frame)

lemma counted_ProcessInstructionExecute: "counted s \<Longrightarrow> counted (ProcessInstructionExecute s a)"
  by (simp add: counted_def ProcessInstructionExecute_def Let_def sum_self_for_all_frames
      sum_self_smap_modify InstructionCost_new_def)

lemma counted_ProcessJump: "counted s \<Longrightarrow> counted (ProcessJump s a)"
  by (simp add: counted_def ProcessJump_def Let_def sum_self_smap_modify [where c = 0, simplified]
      InstructionCost_new_def)

lemma counted_ProcessCall: "counted s \<Longrightarrow> counted (ProcessCall s a r)"
  by (simp add: counted_def ProcessCall_def Let_def sum_self_smap_modify [where c = 0, simplified]
      InstructionCost_new_def)

lemma counted_ProcessReturn: "counted s \<Longrightarrow> counted (ProcessReturn s a)"
  by (simp add: counted_def ProcessReturn_def Let_def)

lemma counted_ProcessDataRead: "counted s \<Longrightarrow> counted (ProcessDataRead s a)"
  by (simp add: counted_def ProcessDataRead_def Let_def sum_self_for_all_frames
      sum_self_smap_modify [where c = 0, simplified] InstructionCost_new_def)

lemma counted_ProcessDataWrite: "counted s \<Longrightarrow> counted (ProcessDataWrite s a)"
  by (simp add: counted_def ProcessDataWrite_def Let_def sum_self_for_all_frames
      sum_self_smap_modify [where c = 0, simplified] InstructionCost_new_def)

lemma counted_ProcessInstrRead: "counted s \<Longrightarrow> counted (ProcessInstrRead s a)"
  by (simp add: counted_def ProcessInstrRead_def Let_def sum_self_for_all_frames
      sum_self_smap_modify [where c = 0, simplified] InstructionCost_new_def)

lemma counted_ProcessEvent: "counted s \<Longrightarrow> counted (ProcessEvent s e)"
  by (simp add: ProcessEvent_def Let_def counted_ProcessInstructionExecute counted_ProcessJump
      counted_ProcessCall counted_ProcessReturn counted_ProcessDataRead counted_ProcessDataWrite
      counted_ProcessInstrRead split: option.split EventType.split)

lemma counted_ProcessEvents: "counted s \<Longrightarrow> counted (ProcessEvents s es)"
  unfolding ProcessEvents_def
  by (induction es arbitrary: s) (simp_all add: counted_ProcessEvent)

lemma counted_Clear: "counted (Clear s)"
  by (simp add: counted_def Clear_def sum_self_def)

text \<open>
  C3. From a cleared \<open>ProfilerData\<close>, after any finite sequence of events, the sum of
  \<open>self_cost\<close> over the instruction-cost table equals \<open>total_instructions\<close> (both are
  \<open>uint64_t\<close>, and the sum is formed in \<open>uint64_t\<close> as the invariant checker forms it).
\<close>

theorem sum_self_eq_total_instructions:
  "sum_self (instruction_costs (ProcessEvents (Clear s) evs)) =
     total_instructions (ProcessEvents (Clear s) evs)"
  using counted_ProcessEvents [OF counted_Clear] by (simp add: counted_def)

lemma find_return_None:
  "\<forall>f \<in> set st. return_address f \<noteq> a \<Longrightarrow> n \<le> length st \<Longrightarrow> find_return st a n = None"
  by (induction n) simp_all

lemma pop_all_Nil: "pop_all st = []"
proof (induction "length st" arbitrary: st)
  case 0
  then show ?case by simp
next
  case (Suc n)
  then have "length (butlast st) = n" by simp
  with Suc.hyps(1) have "pop_all (butlast st) = []" by simp
  then show ?case by (subst pop_all.simps) simp
qed

lemma ProcessReturn_unmatched_stack:
  assumes "call_stack s \<noteq> []" and "\<forall>f \<in> set (call_stack s). return_address f \<noteq> a"
  shows "call_stack (ProcessReturn s a) = []"
proof -
  from assms have "return_address (last (call_stack s)) \<noteq> a" by simp
  moreover have "find_return (call_stack s) a (length (call_stack s)) = None"
    using assms(2) by (simp add: find_return_None)
  ultimately show ?thesis
    using assms(1) pop_all_Nil [of "call_stack s"] by (simp add: ProcessReturn_def Let_def)
qed

lemma current_pc_ProcessReturn: "current_pc (ProcessReturn s a) = a"
  by (simp add: ProcessReturn_def Let_def)

lemma root_edge:
  assumes "call_stack s = []"
  shows "call_stack (ProcessInstructionExecute s b) = [CallFrame_new b 0 0 (0, b)] \<and>
         (\<exists>ic ci. map_of (instruction_costs (ProcessInstructionExecute s b)) 0 = Some ic \<and>
                   map_of (calls ic) b = Some ci)"
proof -
  let ?g = "\<lambda>c. c\<lparr>calls := smap_modify (\<lambda>i. i\<lparr>call_count := call_count i + 1\<rparr>) CallInfo_new b (calls c)\<rparr>"
  let ?m1 = "smap_modify (\<lambda>c. c\<lparr>self_cost := self_cost c + 1\<rparr>) InstructionCost_new b (instruction_costs s)"
  let ?m2 = "smap_modify ?g InstructionCost_new 0 ?m1"
  let ?h = "\<lambda>i. i\<lparr>inclusive_instructions := inclusive_instructions i + 1\<rparr>"
  obtain v where v: "map_of ?m2 0 = Some (?g v)"
    using map_of_smap_modify_hit [of ?g InstructionCost_new 0 ?m1] by blast
  obtain w where w: "map_of (calls (?g v)) b = Some (w\<lparr>call_count := call_count w + 1\<rparr>)"
    using map_of_smap_modify_hit [of "\<lambda>i. i\<lparr>call_count := call_count i + 1\<rparr>" CallInfo_new b "calls v"]
    by auto
  have costs: "instruction_costs (ProcessInstructionExecute s b) = via_call ?h (0, b) ?m2"
    using assms
    by (simp add: ProcessInstructionExecute_def Let_def for_all_frames_def for_frame_def
        CallFrame_new_def)
  have "map_of (via_call ?h (0, b) ?m2) 0 = Some ((?g v)\<lparr>calls := smap_at ?h b (calls (?g v))\<rparr>)"
    by (simp add: via_call_def map_of_smap_at v)
  moreover have "map_of (smap_at ?h b (calls (?g v))) b = Some (?h (w\<lparr>call_count := call_count w + 1\<rparr>))"
    using w by (simp add: map_of_smap_at)
  ultimately have "\<exists>ic ci. map_of (via_call ?h (0, b) ?m2) 0 = Some ic \<and> map_of (calls ic) b = Some ci"
    by simp
  moreover have "call_stack (ProcessInstructionExecute s b) = [CallFrame_new b 0 0 (0, b)]"
    using assms by (simp add: ProcessInstructionExecute_def Let_def)
  ultimately show ?thesis using costs by simp
qed

text \<open>
  C6. A return to an address that no frame expects, on a non-empty stack, pops the whole
  call stack and sets the current pc to that address; an \<open>InstrExecute\<close> at any
  address \<open>b\<close> after it pushes a fresh top-level frame for \<open>b\<close> (no caller, no
  return address), and the table holds a call edge from the root address 0 to \<open>b\<close>.
\<close>

theorem ProcessReturn_unmatched_resets:
  assumes "call_stack s \<noteq> []" and "\<forall>f \<in> set (call_stack s). return_address f \<noteq> a"
  shows "call_stack (ProcessReturn s a) = [] \<and>
         current_pc (ProcessReturn s a) = a \<and>
         call_stack (ProcessInstructionExecute (ProcessReturn s a) b) = [CallFrame_new b 0 0 (0, b)] \<and>
         (\<exists>ic ci. map_of (instruction_costs (ProcessInstructionExecute (ProcessReturn s a) b)) 0 = Some ic \<and>
                   map_of (calls ic) b = Some ci)"
  using ProcessReturn_unmatched_stack [OF assms] root_edge [of "ProcessReturn s a" b]
  by (simp add: current_pc_ProcessReturn)

theorem ProcessReturn_unmatched_resets_witness:
  "call_stack (ProcessCall (ProfilerData_new\<lparr>current_pc := 0x2000\<rparr>) 0x3000 0) \<noteq> [] \<and>
   map return_address (call_stack (ProcessCall (ProfilerData_new\<lparr>current_pc := 0x2000\<rparr>) 0x3000 0))
     = [0x2002] \<and>
   call_stack (ProcessReturn (ProcessCall (ProfilerData_new\<lparr>current_pc := 0x2000\<rparr>) 0x3000 0) 0x5000) = [] \<and>
   call_stack (ProcessInstructionExecute
     (ProcessReturn (ProcessCall (ProfilerData_new\<lparr>current_pc := 0x2000\<rparr>) 0x3000 0) 0x5000) 0x6000)
     = [CallFrame_new 0x6000 0 0 (0, 0x6000)]"
proof -
  let ?s = "ProcessCall (ProfilerData_new\<lparr>current_pc := 0x2000\<rparr>) 0x3000 0"
  have h1: "call_stack ?s \<noteq> []"
    by (simp add: ProcessCall_def Let_def)
  have h2: "\<forall>f \<in> set (call_stack ?s). return_address f \<noteq> 0x5000"
    by (simp add: ProcessCall_def Let_def ProfilerData_new_def CallFrame_new_def)
  have h3: "map return_address (call_stack ?s) = [0x2002]"
    by (simp add: ProcessCall_def Let_def ProfilerData_new_def CallFrame_new_def)
  show ?thesis
    using h1 h3 ProcessReturn_unmatched_resets [where b = "0x6000", OF h1 h2] by simp
qed

text \<open>
  C7. With current pc \<open>p\<close>, \<open>ProcessCall t r\<close> pushes exactly one frame, whose expected
  return address is \<open>p + 2 + r\<close> (in \<open>uint32_t\<close>), and sets the current pc to \<open>t\<close>. In any
  later state \<open>s'\<close> whose top frame \<open>f\<close> expects that return address (the pushed frame,
  whatever jumps the callee has registered in it since), \<open>ProcessReturn\<close> to \<open>p + 2 + r\<close>
  pops exactly \<open>f\<close> and leaves the frames below as they are.
\<close>

theorem ProcessCall_then_ProcessReturn:
  assumes "call_stack s' = st @ [f]"
    and "return_address f = return_address (last (call_stack (ProcessCall s t r)))"
  shows "call_stack (ProcessCall s t r) =
           call_stack s @ [CallFrame_new t (current_pc s) (current_pc s + 2 + r) (current_pc s, t)] \<and>
         return_address (last (call_stack (ProcessCall s t r))) = current_pc s + 2 + r \<and>
         current_pc (ProcessCall s t r) = t \<and>
         call_stack (ProcessReturn s' (current_pc s + 2 + r)) = st \<and>
         current_pc (ProcessReturn s' (current_pc s + 2 + r)) = current_pc s + 2 + r"
proof -
  have push: "call_stack (ProcessCall s t r) =
      call_stack s @ [CallFrame_new t (current_pc s) (current_pc s + 2 + r) (current_pc s, t)]"
    by (simp add: ProcessCall_def Let_def)
  then have ret: "return_address (last (call_stack (ProcessCall s t r))) = current_pc s + 2 + r"
    by (simp add: CallFrame_new_def)
  have pc: "current_pc (ProcessCall s t r) = t"
    by (simp add: ProcessCall_def Let_def)
  have pop: "call_stack (ProcessReturn s' (current_pc s + 2 + r)) = st"
    using assms ret by (simp add: ProcessReturn_def Let_def)
  show ?thesis using push ret pc pop by (simp add: current_pc_ProcessReturn)
qed

theorem ProcessCall_then_ProcessReturn_witness:
  "map return_address
     (call_stack (ProcessInstructionExecute (ProcessJump (ProcessInstructionExecute
        (ProcessCall (ProcessInstructionExecute ProfilerData_new 0x2000) 0x3000 0) 0x3000) 0x3100) 0x3100))
     = [0, 0x2002] \<and>
   jump_refs (last
     (call_stack (ProcessInstructionExecute (ProcessJump (ProcessInstructionExecute
        (ProcessCall (ProcessInstructionExecute ProfilerData_new 0x2000) 0x3000 0) 0x3000) 0x3100) 0x3100)))
     = [((0x3000, 0x3100), (0x3000, 0x3100))] \<and>
   return_address (last (call_stack
     (ProcessCall (ProcessInstructionExecute ProfilerData_new 0x2000) 0x3000 0))) = 0x2002 \<and>
   map address
     (call_stack (ProcessReturn (ProcessInstructionExecute (ProcessJump (ProcessInstructionExecute
        (ProcessCall (ProcessInstructionExecute ProfilerData_new 0x2000) 0x3000 0) 0x3000) 0x3100) 0x3100)
        0x2002))
     = [0x2000]"
proof -
  let ?s = "ProcessInstructionExecute ProfilerData_new 0x2000"
  let ?s' = "ProcessInstructionExecute (ProcessJump (ProcessInstructionExecute
        (ProcessCall ?s 0x3000 0) 0x3000) 0x3100) 0x3100"
  note defs = ProfilerData_new_def ProcessInstructionExecute_def ProcessJump_def ProcessCall_def
    Let_def InstructionCost_new_def CallInfo_new_def CallFrame_new_def for_all_frames_def
    for_frame_def via_call_def via_jump_def
  have stack: "call_stack ?s' =
      [CallFrame_new 0x2000 0 0 (0, 0x2000),
       (CallFrame_new 0x3000 0x2000 0x2002 (0x2000, 0x3000))
         \<lparr>jump_refs := [((0x3000, 0x3100), (0x3000, 0x3100))]\<rparr>]"
    by (simp add: defs)
  have top: "call_stack ?s' = [CallFrame_new 0x2000 0 0 (0, 0x2000)] @
      [(CallFrame_new 0x3000 0x2000 0x2002 (0x2000, 0x3000))
         \<lparr>jump_refs := [((0x3000, 0x3100), (0x3000, 0x3100))]\<rparr>]"
    using stack by simp
  have pc: "current_pc ?s + 2 + 0 = 0x2002" by (simp add: defs)
  have ret: "return_address ((CallFrame_new 0x3000 0x2000 0x2002 (0x2000, 0x3000))
         \<lparr>jump_refs := [((0x3000, 0x3100), (0x3000, 0x3100))]\<rparr>) =
      return_address (last (call_stack (ProcessCall ?s 0x3000 0)))"
    by (simp add: defs)
  from ProcessCall_then_ProcessReturn [OF top ret]
  have "return_address (last (call_stack (ProcessCall ?s 0x3000 0))) = 0x2002 \<and>
      call_stack (ProcessReturn ?s' 0x2002) = [CallFrame_new 0x2000 0 0 (0, 0x2000)]"
    unfolding pc by blast
  then show ?thesis using stack by (simp add: CallFrame_new_def)
qed

text \<open>
  C10. \<open>ProcessReturn\<close> leaves the instruction-cost table and the total-instruction
  counter as they are, in every branch; it changes the call stack and the current pc only.
\<close>

theorem ProcessReturn_leaves_costs:
  "instruction_costs (ProcessReturn s a) = instruction_costs s \<and>
   total_instructions (ProcessReturn s a) = total_instructions s \<and>
   ProcessReturn s a = s\<lparr>call_stack := call_stack (ProcessReturn s a), current_pc := a\<rparr>"
  by (simp add: ProcessReturn_def Let_def)

section \<open>The function grouper\<close>

lemma entry_points_AddFunction_fold:
  "entry_points (fold (\<lambda>func_entry g. AddFunction g (fst func_entry) (F func_entry)) tf g) =
     entry_points g"
  by (induction tf arbitrary: g) (simp_all add: AddFunction_def)

lemma GetEntryPoints_ConvertToGroupedData: "GetEntryPoints (ConvertToGroupedData d) = []"
  by (simp add: GetEntryPoints_def ConvertToGroupedData_def Let_def entry_points_AddFunction_fold
      SetTotalInstructions_def GroupedProfilerData_new_def)

text \<open>
  C1. \<open>ConvertToGroupedData\<close> never stores into \<open>entry_points_\<close>: after a single
  \<open>InstrExecute\<close> at \<open>0x1000\<close> on an empty stack, the entry-point set of the grouped
  data is empty, although \<open>0x1000\<close> was executed with an empty call stack.
\<close>

theorem entry_points_not_recorded:
  "call_stack ProfilerData_new = [] \<and>
   total_instructions (ProcessInstructionExecute ProfilerData_new 0x1000) = 1 \<and>
   GetEntryPoints (ConvertToGroupedData (ProcessInstructionExecute ProfilerData_new 0x1000)) = []"
  by (simp add: GetEntryPoints_ConvertToGroupedData ProfilerData_new_def
      ProcessInstructionExecute_def Let_def)

section \<open>The function grouper: entries and partition\<close>

lemma set_set_insert: "set (set_insert k s) = insert k (set s)"
  by (induction k s rule: set_insert.induct) auto

lemma sorted_set_insert: "sorted_wrt (<) s \<Longrightarrow> sorted_wrt (<) (set_insert k s)"
  by (induction k s rule: set_insert.induct) (auto simp: set_set_insert)

lemma upper_bound_le: "upper_bound fe a \<le> length fe"
  by (induction fe) simp_all

lemma upper_bound_0: "sorted_wrt (<) fe \<Longrightarrow> upper_bound fe a = 0 \<longleftrightarrow> (\<forall>e \<in> set fe. a < e)"
  by (induction fe) auto

lemma upper_bound_pred:
  "sorted_wrt (<) fe \<Longrightarrow> upper_bound fe a \<noteq> 0 \<Longrightarrow>
     fe ! (upper_bound fe a - 1) \<in> set fe \<and> fe ! (upper_bound fe a - 1) \<le> a \<and>
     (\<forall>e \<in> set fe. e \<le> a \<longrightarrow> e \<le> fe ! (upper_bound fe a - 1))"
proof (induction fe)
  case Nil
  then show ?case by simp
next
  case (Cons x fe)
  from Cons.prems have srt: "sorted_wrt (<) fe" and lt: "\<forall>e \<in> set fe. x < e" and xa: "\<not> a < x"
    by (auto split: if_splits)
  show ?case
  proof (cases "upper_bound fe a = 0")
    case True
    then have "\<forall>e \<in> set fe. a < e" using srt by (simp add: upper_bound_0)
    with True xa show ?thesis by auto
  next
    case False
    from Cons.IH [OF srt False]
    have in_set: "fe ! (upper_bound fe a - 1) \<in> set fe"
      and le: "fe ! (upper_bound fe a - 1) \<le> a"
      and mx: "\<forall>e \<in> set fe. e \<le> a \<longrightarrow> e \<le> fe ! (upper_bound fe a - 1)"
      by simp_all
    have idx: "(x # fe) ! (upper_bound (x # fe) a - 1) = fe ! (upper_bound fe a - 1)"
      using xa False by (simp add: nth_Cons')
    from in_set lt have "x \<le> fe ! (upper_bound fe a - 1)" by auto
    with in_set le mx show ?thesis unfolding idx by auto
  qed
qed

lemma function_of_none: "sorted_wrt (<) fe \<Longrightarrow> \<forall>e \<in> set fe. a < e \<Longrightarrow> function_of fe a = a"
proof -
  assume "sorted_wrt (<) fe" and "\<forall>e \<in> set fe. a < e"
  then have "upper_bound fe a = 0" by (simp add: upper_bound_0)
  then show ?thesis by (simp add: function_of_def)
qed

lemma function_of_some:
  assumes "sorted_wrt (<) fe" and "e \<in> set fe" and "e \<le> a"
  shows "function_of fe a \<in> set fe \<and> function_of fe a \<le> a \<and>
         (\<forall>e' \<in> set fe. e' \<le> a \<longrightarrow> e' \<le> function_of fe a)"
proof -
  from assms(2,3) have "\<not> (\<forall>e \<in> set fe. a < e)" by (meson leD)
  with assms(1) have nz: "upper_bound fe a \<noteq> 0" by (simp add: upper_bound_0)
  from upper_bound_pred [OF assms(1) nz] nz show ?thesis by (simp add: function_of_def)
qed

lemma sorted_fold_set_insert:
  "sorted_wrt (<) fe \<Longrightarrow> sorted_wrt (<) (fold (\<lambda>x fe'. set_insert (g x) fe') xs fe)"
  by (induction xs arbitrary: fe) (simp_all add: sorted_set_insert)

lemma set_fold_set_insert:
  "set (fold (\<lambda>x fe'. set_insert (g x) fe') xs fe) = g ` set xs \<union> set fe"
  by (induction xs arbitrary: fe) (auto simp: set_set_insert)

lemma sorted_call_targets_aux:
  "sorted_wrt (<) fe \<Longrightarrow>
   sorted_wrt (<) (fold (\<lambda>entry fe. fold (\<lambda>call_entry fe'. set_insert (fst call_entry) fe') (calls (snd entry)) fe) costs fe)"
  by (induction costs arbitrary: fe) (simp_all add: sorted_fold_set_insert)

lemma sorted_call_targets: "sorted_wrt (<) (call_targets costs)"
  by (simp add: call_targets_def sorted_call_targets_aux)

lemma set_call_targets_aux:
  "set (fold (\<lambda>entry fe. fold (\<lambda>call_entry fe'. set_insert (fst call_entry) fe') (calls (snd entry)) fe) costs fe)
     = (\<Union>entry \<in> set costs. fst ` set (calls (snd entry))) \<union> set fe"
  by (induction costs arbitrary: fe) (auto simp: set_fold_set_insert)

lemma set_call_targets: "set (call_targets costs) = (\<Union>entry \<in> set costs. fst ` set (calls (snd entry)))"
  by (simp add: call_targets_def set_call_targets_aux)

lemma jump_loops_flat:
  "fold (\<lambda>entry acc. fold (\<lambda>jump_entry acc'. jump_step (fst entry) (fst jump_entry) acc')
                          (jumps (snd entry)) acc) costs acc =
   fold (\<lambda>p acc. jump_step (fst p) (snd p) acc) (all_jumps costs) acc"
  by (induction costs arbitrary: acc) (simp_all add: all_jumps_def fold_map comp_def)

lemma add_jump_targets_flat:
  "add_jump_targets costs fe = fold (\<lambda>p acc. jump_step (fst p) (snd p) acc) (all_jumps costs) (fe, [])"
  by (simp add: add_jump_targets_def jump_loops_flat)

lemma crossing:
  "sorted_wrt (<) fe \<Longrightarrow> \<exists>e \<in> set fe. mn < e \<and> e < mx \<Longrightarrow> upper_bound fe mn \<noteq> lower_bound fe mx"
proof (induction fe)
  case Nil
  then show ?case by simp
next
  case (Cons x fe)
  from Cons.prems obtain e where e: "e \<in> set (x # fe)" "mn < e" "e < mx" by blast
  from Cons.prems have srt: "sorted_wrt (<) fe" and lt: "\<forall>y \<in> set fe. x < y" by simp_all
  show ?case
  proof (cases "mn < x")
    case True
    have "x < mx"
    proof (cases "e = x")
      case True
      with e show ?thesis by simp
    next
      case False
      with e lt have "x < e" by auto
      with e show ?thesis by simp
    qed
    with True show ?thesis by simp
  next
    case False
    with e have "e \<noteq> x" by auto
    with e have ein: "e \<in> set fe" by simp
    with lt have "x < e" by simp
    with e have "x < mx" by simp
    moreover have "upper_bound fe mn \<noteq> lower_bound fe mx"
      using Cons.IH [OF srt] ein e by blast
    ultimately show ?thesis using False by simp
  qed
qed

lemma jump_step_sorted: "sorted_wrt (<) (fst acc) \<Longrightarrow> sorted_wrt (<) (fst (jump_step s t acc))"
  by (simp add: jump_step_def sorted_set_insert)

lemma jump_step_mono: "set (fst acc) \<subseteq> set (fst (jump_step s t acc))"
  by (auto simp: jump_step_def set_set_insert)

lemma jump_step_upper: "set (fst (jump_step s t acc)) \<subseteq> insert t (set (fst acc))"
  by (auto simp: jump_step_def set_set_insert)

lemma jump_step_promotes:
  "sorted_wrt (<) (fst acc) \<Longrightarrow> \<exists>e \<in> set (fst acc). min s t < e \<and> e < max s t \<Longrightarrow>
   t \<in> set (fst (jump_step s t acc))"
  using crossing [of "fst acc" "min s t" "max s t"]
  by (simp add: jump_step_def crosses_def set_set_insert)

lemma pass_sorted:
  "sorted_wrt (<) (fst acc) \<Longrightarrow>
   sorted_wrt (<) (fst (fold (\<lambda>p acc. jump_step (fst p) (snd p) acc) js acc))"
  by (induction js arbitrary: acc) (simp_all add: jump_step_sorted)

lemma pass_mono:
  "set (fst acc) \<subseteq> set (fst (fold (\<lambda>p acc. jump_step (fst p) (snd p) acc) js acc))"
proof (induction js arbitrary: acc)
  case Nil
  then show ?case by simp
next
  case (Cons j js)
  have "set (fst acc) \<subseteq> set (fst (jump_step (fst j) (snd j) acc))" by (rule jump_step_mono)
  also have "\<dots> \<subseteq> set (fst (fold (\<lambda>p acc. jump_step (fst p) (snd p) acc) js (jump_step (fst j) (snd j) acc)))"
    by (rule Cons.IH)
  finally show ?case by simp
qed

lemma pass_upper:
  "set (fst (fold (\<lambda>p acc. jump_step (fst p) (snd p) acc) js acc)) \<subseteq> set (fst acc) \<union> snd ` set js"
proof (induction js arbitrary: acc)
  case Nil
  then show ?case by simp
next
  case (Cons j js)
  have "set (fst (fold (\<lambda>p acc. jump_step (fst p) (snd p) acc) js (jump_step (fst j) (snd j) acc)))
      \<subseteq> set (fst (jump_step (fst j) (snd j) acc)) \<union> snd ` set js"
    by (rule Cons.IH)
  also have "\<dots> \<subseteq> insert (snd j) (set (fst acc)) \<union> snd ` set js"
    using jump_step_upper [of "fst j" "snd j" acc] by auto
  finally show ?case by auto
qed

lemma function_entries_of_flat:
  "function_entries_of costs = entries_at costs (length (all_jumps costs))"
  by (simp add: function_entries_of_def entries_at_def add_jump_targets_flat)

lemma sorted_entries_at: "sorted_wrt (<) (entries_at costs n)"
  by (simp add: entries_at_def pass_sorted sorted_call_targets)

lemma sorted_function_entries_of: "sorted_wrt (<) (function_entries_of costs)"
  by (simp add: function_entries_of_flat sorted_entries_at)

lemma entries_at_Suc:
  assumes "n < length (all_jumps costs)"
  shows "entries_at costs (Suc n) =
    fst (jump_step (fst (all_jumps costs ! n)) (snd (all_jumps costs ! n))
          (fold (\<lambda>p acc. jump_step (fst p) (snd p) acc) (take n (all_jumps costs)) (call_targets costs, [])))"
  using assms by (simp add: entries_at_def take_Suc_conv_app_nth)

lemma entries_at_mono:
  assumes "n \<le> m"
  shows "set (entries_at costs n) \<subseteq> set (entries_at costs m)"
proof -
  let ?js = "all_jumps costs"
  let ?f = "\<lambda>p acc. jump_step (fst p) (snd p) acc"
  have "take (n + (m - n)) ?js = take n ?js @ take (m - n) (drop n ?js)"
    by (rule take_add)
  then have "take m ?js = take n ?js @ take (m - n) (drop n ?js)"
    using assms by simp
  then have eq: "fold ?f (take m ?js) (call_targets costs, []) =
      fold ?f (take (m - n) (drop n ?js)) (fold ?f (take n ?js) (call_targets costs, []))"
    by simp
  show ?thesis unfolding entries_at_def eq by (rule pass_mono)
qed

lemma entries_at_final:
  "length (all_jumps costs) \<le> n \<Longrightarrow> entries_at costs n = function_entries_of costs"
  by (simp add: function_entries_of_flat entries_at_def)

lemma visited_jump_promoted:
  assumes n: "n < length (all_jumps costs)"
    and e: "e \<in> set (entries_at costs n)"
    and btw: "min (fst (all_jumps costs ! n)) (snd (all_jumps costs ! n)) < e"
             "e < max (fst (all_jumps costs ! n)) (snd (all_jumps costs ! n))"
  shows "snd (all_jumps costs ! n) \<in> set (function_entries_of costs)"
proof -
  let ?acc = "fold (\<lambda>p acc. jump_step (fst p) (snd p) acc) (take n (all_jumps costs)) (call_targets costs, [])"
  have srt: "sorted_wrt (<) (fst ?acc)" using sorted_entries_at [of costs n] by (simp add: entries_at_def)
  have "\<exists>e \<in> set (fst ?acc). min (fst (all_jumps costs ! n)) (snd (all_jumps costs ! n)) < e \<and>
      e < max (fst (all_jumps costs ! n)) (snd (all_jumps costs ! n))"
    using e btw by (auto simp: entries_at_def)
  from jump_step_promotes [OF srt this]
  have "snd (all_jumps costs ! n) \<in> set (entries_at costs (Suc n))"
    by (simp add: entries_at_Suc [OF n])
  moreover have "set (entries_at costs (Suc n)) \<subseteq> set (entries_at costs (length (all_jumps costs)))"
    using n by (intro entries_at_mono) simp
  ultimately show ?thesis by (auto simp: function_entries_of_flat)
qed

lemma map_of_smap_modify_const: "map_of (smap_modify (\<lambda>_. v) d k m) k = Some v"
  using map_of_smap_modify_hit [of "\<lambda>_. v" d k m] by simp

lemma smap_modify_append:
  "\<forall>k' \<in> fst ` set m. k' < k \<Longrightarrow> smap_modify f d k m = m @ [(k, f d)]"
  by (induction f d k m rule: smap_modify.induct) auto

lemma map_of_map_instructions_aux:
  "map_of (fold (\<lambda>entry itf. smap_modify (\<lambda>_. g (fst entry)) 0 (fst entry) itf) costs itf) a =
     (if a \<in> fst ` set costs then Some (g a) else map_of itf a)"
proof (induction costs arbitrary: itf)
  case Nil
  then show ?case by simp
next
  case (Cons e costs)
  show ?case
  proof (cases "a \<in> fst ` set costs")
    case True
    then show ?thesis by (simp add: Cons.IH)
  next
    case False
    let ?itf1 = "smap_modify (\<lambda>_. g (fst e)) 0 (fst e) itf"
    have step: "map_of (fold (\<lambda>entry itf. smap_modify (\<lambda>_. g (fst entry)) 0 (fst entry) itf)
        (e # costs) itf) a = map_of ?itf1 a"
      using False by (simp add: Cons.IH)
    show ?thesis
    proof (cases "a = fst e")
      case True
      have "map_of ?itf1 (fst e) = Some (g (fst e))" by (rule map_of_smap_modify_const)
      with True step show ?thesis by simp
    next
      case ne: False
      then have "map_of ?itf1 a = map_of itf a" by (simp add: map_of_smap_modify_other)
      with ne False step show ?thesis by simp
    qed
  qed
qed

lemma map_of_map_instructions:
  "map_of (map_instructions fe costs) a =
     (if a \<in> fst ` set costs then Some (function_of fe a) else None)"
  by (simp add: map_instructions_def map_of_map_instructions_aux)

lemma bucket_fold:
  "smap_ok tf \<Longrightarrow>
   smap_ok (fold (\<lambda>entry tf. smap_modify (\<lambda>v. v @ [entry]) [] (g entry) tf) cs tf) \<and>
   (\<forall>k. map_of (fold (\<lambda>entry tf. smap_modify (\<lambda>v. v @ [entry]) [] (g entry) tf) cs tf) k =
     (if filter (\<lambda>e. g e = k) cs = [] then map_of tf k
      else Some ((case map_of tf k of None \<Rightarrow> [] | Some v \<Rightarrow> v) @ filter (\<lambda>e. g e = k) cs)))"
proof (induction cs arbitrary: tf)
  case Nil
  then show ?case by simp
next
  case (Cons c cs)
  let ?tf1 = "smap_modify (\<lambda>v. v @ [c]) [] (g c) tf"
  have ok1: "smap_ok ?tf1" using Cons.prems by (rule smap_ok_smap_modify)
  note IH = Cons.IH [OF ok1]
  have same: "map_of ?tf1 (g c) = Some ((case map_of tf (g c) of None \<Rightarrow> [] | Some v \<Rightarrow> v) @ [c])"
    using Cons.prems by (simp add: map_of_smap_modify_same)
  have other: "\<And>k. k \<noteq> g c \<Longrightarrow> map_of ?tf1 k = map_of tf k"
    by (simp add: map_of_smap_modify_other)
  show ?case
  proof (intro conjI allI)
    show "smap_ok (fold (\<lambda>entry tf. smap_modify (\<lambda>v. v @ [entry]) [] (g entry) tf) (c # cs) tf)"
      using IH by simp
  next
    fix k
    show "map_of (fold (\<lambda>entry tf. smap_modify (\<lambda>v. v @ [entry]) [] (g entry) tf) (c # cs) tf) k =
      (if filter (\<lambda>e. g e = k) (c # cs) = [] then map_of tf k
       else Some ((case map_of tf k of None \<Rightarrow> [] | Some v \<Rightarrow> v) @ filter (\<lambda>e. g e = k) (c # cs)))"
    proof (cases "k = g c")
      case True
      then show ?thesis using IH same by simp
    next
      case False
      then have "g c \<noteq> k" by simp
      then show ?thesis using IH other [OF False] by simp
    qed
  qed
qed

lemma group_instructions_ok: "smap_ok (group_instructions itf costs)"
  using bucket_fold [of "[]" "owner_key itf" costs]
  by (simp add: group_instructions_def owner_key_def smap_ok_def)

lemma map_of_group_instructions:
  "map_of (group_instructions itf costs) k =
     (if filter (\<lambda>e. owner_key itf e = k) costs = [] then None
      else Some (filter (\<lambda>e. owner_key itf e = k) costs))"
  using bucket_fold [of "[]" "owner_key itf" costs]
  by (simp add: group_instructions_def owner_key_def smap_ok_def)

lemma functions_AddFunction_fold:
  "sorted_wrt (<) (map fst (functions g) @ map fst tf) \<Longrightarrow>
   functions (fold (\<lambda>func_entry g. AddFunction g (fst func_entry) (F func_entry)) tf g) =
     functions g @ map (\<lambda>func_entry. (fst func_entry, F func_entry)) tf"
proof (induction tf arbitrary: g)
  case Nil
  then show ?case by simp
next
  case (Cons e tf)
  let ?g1 = "AddFunction g (fst e) (F e)"
  have lt: "\<forall>k' \<in> fst ` set (functions g). k' < fst e"
    using Cons.prems by (auto simp: sorted_wrt_append)
  then have f1: "functions ?g1 = functions g @ [(fst e, F e)]"
    by (simp add: AddFunction_def smap_modify_append)
  have "sorted_wrt (<) (map fst (functions ?g1) @ map fst tf)"
    using Cons.prems unfolding f1 by simp
  from Cons.IH [OF this] show ?case by (simp add: f1)
qed

lemma add_call_keeps:
  "instructions (add_call itf addr ce func) = instructions func \<and>
   entry_address (add_call itf addr ce func) = entry_address func"
  by (simp add: add_call_def split: option.split)

lemma add_jump_keeps:
  "instructions (add_jump cb itf addr je func) = instructions func \<and>
   entry_address (add_jump cb itf addr je func) = entry_address func"
  by (simp add: add_jump_def split: option.split)

lemma fold_add_call_keeps:
  "instructions (fold (add_call itf addr) ces func) = instructions func \<and>
   entry_address (fold (add_call itf addr) ces func) = entry_address func"
  by (induction ces arbitrary: func) (simp_all add: add_call_keeps)

lemma fold_add_jump_keeps:
  "instructions (fold (add_jump cb itf addr) jes func) = instructions func \<and>
   entry_address (fold (add_jump cb itf addr) jes func) = entry_address func"
  by (induction jes arbitrary: func) (simp_all add: add_jump_keeps)

lemma add_instruction_instructions:
  "instructions (add_instruction cb itf instr func) = instructions func @ [as_instruction instr] \<and>
   entry_address (add_instruction cb itf instr func) = entry_address func"
  by (simp add: add_instruction_def Let_def fold_add_jump_keeps fold_add_call_keeps as_instruction_def)

lemma fold_add_instruction:
  "instructions (fold (add_instruction cb itf) instrs func) = instructions func @ map as_instruction instrs \<and>
   entry_address (fold (add_instruction cb itf) instrs func) = entry_address func"
  by (induction instrs arbitrary: func) (simp_all add: add_instruction_instructions)

lemma build_function_instructions:
  "instructions (build_function cb itf func_addr instrs) = map as_instruction instrs \<and>
   entry_address (build_function cb itf func_addr instrs) = func_addr"
  by (simp add: build_function_def fold_add_instruction)

lemma owner_key_map_instructions:
  "entry \<in> set costs \<Longrightarrow> owner_key (map_instructions fe costs) entry = function_of fe (fst entry)"
  by (simp add: owner_key_def map_of_map_instructions)

lemma filter_owner:
  "filter (\<lambda>e. owner_key (map_instructions fe costs) e = k) costs =
   filter (\<lambda>e. function_of fe (fst e) = k) costs"
  by (rule filter_cong) (simp_all add: owner_key_map_instructions)

lemma GetFunctions_ConvertToGroupedData:
  "GetFunctions (ConvertToGroupedData d) =
     map (\<lambda>func_entry. (fst func_entry,
            build_function (snd (add_jump_targets (instruction_costs d) (call_targets (instruction_costs d))))
              (map_instructions (function_entries_of (instruction_costs d)) (instruction_costs d))
              (fst func_entry) (snd func_entry)))
       (group_instructions (map_instructions (function_entries_of (instruction_costs d)) (instruction_costs d))
          (instruction_costs d))"
proof (cases "instruction_costs d = []")
  case True
  then show ?thesis
    by (simp add: GetFunctions_def ConvertToGroupedData_def Let_def SetTotalInstructions_def
        GroupedProfilerData_new_def group_instructions_def)
next
  case False
  let ?tf = "group_instructions (map_instructions (function_entries_of (instruction_costs d)) (instruction_costs d))
          (instruction_costs d)"
  let ?g = "SetTotalInstructions GroupedProfilerData_new (total_instructions d)"
  have "sorted_wrt (<) (map fst (functions ?g) @ map fst ?tf)"
    using group_instructions_ok [of _ "instruction_costs d"]
    by (simp add: SetTotalInstructions_def GroupedProfilerData_new_def smap_ok_def)
  from functions_AddFunction_fold [OF this] False show ?thesis
    by (simp add: GetFunctions_def ConvertToGroupedData_def Let_def function_entries_of_def
        SetTotalInstructions_def GroupedProfilerData_new_def)
qed

lemma smap_ok_map_snd: "smap_ok (map (\<lambda>e. (fst e, F e)) m) = smap_ok m"
  by (simp add: smap_ok_def comp_def)

lemma smap_ok_GetFunctions: "smap_ok (GetFunctions (ConvertToGroupedData d))"
  unfolding GetFunctions_ConvertToGroupedData smap_ok_map_snd by (rule group_instructions_ok)

lemma smap_ok_distinct: "smap_ok m \<Longrightarrow> distinct (map fst m)"
  by (simp add: smap_ok_def strict_sorted_iff)

lemma in_GetFunctions:
  assumes "p \<in> set (GetFunctions (ConvertToGroupedData d))"
  shows "filter (\<lambda>e. function_of (function_entries_of (instruction_costs d)) (fst e) = fst p)
           (instruction_costs d) \<noteq> [] \<and>
         instructions (snd p) = map as_instruction
           (filter (\<lambda>e. function_of (function_entries_of (instruction_costs d)) (fst e) = fst p)
              (instruction_costs d)) \<and>
         entry_address (snd p) = fst p"
proof -
  let ?costs = "instruction_costs d"
  let ?itf = "map_instructions (function_entries_of ?costs) ?costs"
  let ?tf = "group_instructions ?itf ?costs"
  from assms obtain q where q: "q \<in> set ?tf" and p: "fst p = fst q"
    "instructions (snd p) = map as_instruction (snd q)" "entry_address (snd p) = fst p"
    unfolding GetFunctions_ConvertToGroupedData by (auto simp: build_function_instructions)
  have "distinct (map fst ?tf)" by (rule smap_ok_distinct [OF group_instructions_ok])
  with q have "map_of ?tf (fst q) = Some (snd q)" by simp
  then have "filter (\<lambda>e. function_of (function_entries_of ?costs) (fst e) = fst q) ?costs \<noteq> [] \<and>
      snd q = filter (\<lambda>e. function_of (function_entries_of ?costs) (fst e) = fst q) ?costs"
    by (simp add: map_of_group_instructions filter_owner split: if_splits)
  with p show ?thesis by simp
qed

lemma GetFunctions_has_owner:
  assumes "a \<in> fst ` set (instruction_costs d)"
  shows "\<exists>p \<in> set (GetFunctions (ConvertToGroupedData d)).
           fst p = function_of (function_entries_of (instruction_costs d)) a"
proof -
  let ?costs = "instruction_costs d"
  let ?E = "function_entries_of ?costs"
  let ?itf = "map_instructions ?E ?costs"
  let ?tf = "group_instructions ?itf ?costs"
  from assms obtain e where e: "e \<in> set ?costs" "fst e = a" by auto
  then have "e \<in> set (filter (\<lambda>e. function_of ?E (fst e) = function_of ?E a) ?costs)" by simp
  then have ne: "filter (\<lambda>e. function_of ?E (fst e) = function_of ?E a) ?costs \<noteq> []"
    by (metis empty_iff list.set(1))
  then have "map_of ?tf (function_of ?E a) =
      Some (filter (\<lambda>e. function_of ?E (fst e) = function_of ?E a) ?costs)"
    by (simp add: map_of_group_instructions filter_owner)
  then have "(function_of ?E a, filter (\<lambda>e. function_of ?E (fst e) = function_of ?E a) ?costs) \<in> set ?tf"
    by (rule map_of_SomeD)
  then show ?thesis
    unfolding GetFunctions_ConvertToGroupedData by force
qed

lemma in_instructions_iff:
  assumes "p \<in> set (GetFunctions (ConvertToGroupedData d))"
  shows "a \<in> instr_address ` set (instructions (snd p)) \<longleftrightarrow>
         a \<in> fst ` set (instruction_costs d) \<and>
         function_of (function_entries_of (instruction_costs d)) a = fst p"
proof -
  let ?P = "\<lambda>e. function_of (function_entries_of (instruction_costs d)) (fst e) = fst p"
  have "instr_address ` set (instructions (snd p)) = fst ` set (filter ?P (instruction_costs d))"
    using in_GetFunctions [OF assms] by (simp add: image_image as_instruction_def)
  then show ?thesis by auto
qed

lemma function_of_owned:
  assumes "sorted_wrt (<) fe"
  shows "if \<exists>e \<in> set fe. e \<le> a
         then function_of fe a \<in> set fe \<and> function_of fe a \<le> a \<and>
              (\<forall>e \<in> set fe. e \<le> a \<longrightarrow> e \<le> function_of fe a)
         else function_of fe a = a"
proof (cases "\<exists>e \<in> set fe. e \<le> a")
  case True
  then obtain e where "e \<in> set fe" "e \<le> a" by blast
  from function_of_some [OF assms this] True show ?thesis by simp
next
  case False
  then have "\<forall>e \<in> set fe. a < e" by auto
  from function_of_none [OF assms this] False show ?thesis by simp
qed

text \<open>
  C4. In the output of \<open>ConvertToGroupedData\<close> the functions have distinct entry keys;
  every address of the instruction-cost table is in the instruction list of exactly one
  function; every listed instruction is an entry of the table; and the function that lists
  an address is keyed by the largest function entry \<open>\<le>\<close> the address, or by the address
  itself when no function entry is \<open>\<le>\<close> it.
\<close>

theorem ConvertToGroupedData_partition:
  "smap_ok (GetFunctions (ConvertToGroupedData d)) \<and>
   (\<forall>a \<in> fst ` set (instruction_costs d).
      \<exists>!p. p \<in> set (GetFunctions (ConvertToGroupedData d)) \<and>
           a \<in> instr_address ` set (instructions (snd p))) \<and>
   (\<forall>p \<in> set (GetFunctions (ConvertToGroupedData d)). \<forall>i \<in> set (instructions (snd p)).
      (instr_address i, cost i) \<in> set (instruction_costs d) \<and>
      entry_address (snd p) = fst p \<and>
      (if \<exists>e \<in> set (function_entries_of (instruction_costs d)). e \<le> instr_address i
       then fst p \<in> set (function_entries_of (instruction_costs d)) \<and> fst p \<le> instr_address i \<and>
            (\<forall>e \<in> set (function_entries_of (instruction_costs d)). e \<le> instr_address i \<longrightarrow> e \<le> fst p)
       else fst p = instr_address i))"
proof -
  let ?Fs = "GetFunctions (ConvertToGroupedData d)"
  let ?E = "function_entries_of (instruction_costs d)"
  have keys: "smap_ok ?Fs" by (rule smap_ok_GetFunctions)
  have one: "\<forall>a \<in> fst ` set (instruction_costs d).
      \<exists>!p. p \<in> set ?Fs \<and> a \<in> instr_address ` set (instructions (snd p))"
  proof
    fix a assume a: "a \<in> fst ` set (instruction_costs d)"
    from GetFunctions_has_owner [OF a] obtain p where p: "p \<in> set ?Fs" "fst p = function_of ?E a"
      by blast
    show "\<exists>!p. p \<in> set ?Fs \<and> a \<in> instr_address ` set (instructions (snd p))"
    proof (rule ex1I [of _ p])
      show "p \<in> set ?Fs \<and> a \<in> instr_address ` set (instructions (snd p))"
        using p a by (simp add: in_instructions_iff)
    next
      fix q assume q: "q \<in> set ?Fs \<and> a \<in> instr_address ` set (instructions (snd q))"
      then have qs: "q \<in> set ?Fs" and qa: "a \<in> instr_address ` set (instructions (snd q))"
        by simp_all
      from qa have "function_of ?E a = fst q" unfolding in_instructions_iff [OF qs] by simp
      then have "fst q = fst p" using p by simp
      moreover have "distinct (map fst ?Fs)" by (rule smap_ok_distinct [OF smap_ok_GetFunctions])
      ultimately show "q = p" using qs p(1) by (metis eq_key_imp_eq_value prod.collapse)
    qed
  qed
  have owner: "\<forall>p \<in> set ?Fs. \<forall>i \<in> set (instructions (snd p)).
      (instr_address i, cost i) \<in> set (instruction_costs d) \<and>
      entry_address (snd p) = fst p \<and>
      (if \<exists>e \<in> set ?E. e \<le> instr_address i
       then fst p \<in> set ?E \<and> fst p \<le> instr_address i \<and>
            (\<forall>e \<in> set ?E. e \<le> instr_address i \<longrightarrow> e \<le> fst p)
       else fst p = instr_address i)"
  proof (intro ballI)
    fix p i
    assume p: "p \<in> set ?Fs" and i: "i \<in> set (instructions (snd p))"
    from in_GetFunctions [OF p] i obtain e where e: "e \<in> set (instruction_costs d)"
      "function_of ?E (fst e) = fst p" "i = as_instruction e" and ent: "entry_address (snd p) = fst p"
      by auto
    have ic: "(instr_address i, cost i) \<in> set (instruction_costs d)"
      using e by (simp add: as_instruction_def)
    have ia: "instr_address i = fst e" using e by (simp add: as_instruction_def)
    have owned: "if \<exists>x \<in> set ?E. x \<le> fst e
         then function_of ?E (fst e) \<in> set ?E \<and> function_of ?E (fst e) \<le> fst e \<and>
              (\<forall>x \<in> set ?E. x \<le> fst e \<longrightarrow> x \<le> function_of ?E (fst e))
         else function_of ?E (fst e) = fst e"
      by (rule function_of_owned [OF sorted_function_entries_of])
    then have "if \<exists>x \<in> set ?E. x \<le> instr_address i
         then fst p \<in> set ?E \<and> fst p \<le> instr_address i \<and>
              (\<forall>x \<in> set ?E. x \<le> instr_address i \<longrightarrow> x \<le> fst p)
         else fst p = instr_address i"
      unfolding ia e(2) .
    with ic ent show "(instr_address i, cost i) \<in> set (instruction_costs d) \<and>
      entry_address (snd p) = fst p \<and>
      (if \<exists>e \<in> set ?E. e \<le> instr_address i
       then fst p \<in> set ?E \<and> fst p \<le> instr_address i \<and>
            (\<forall>e \<in> set ?E. e \<le> instr_address i \<longrightarrow> e \<le> fst p)
       else fst p = instr_address i)"
      by blast
  qed
  from keys one owner show ?thesis by blast
qed

lemmas builder_defs = ProcessEvents_def ProcessEvent_def GetEventType_def GetEventAddress_def
    GetReturnOffset_def EventType_cast_def ProfilerData_new_def ProcessInstructionExecute_def
    ProcessJump_def ProcessCall_def Let_def InstructionCost_new_def CallInfo_new_def CallFrame_new_def
    for_all_frames_def for_frame_def via_call_def via_jump_def

lemmas grouper_defs = function_entries_of_def add_jump_targets_def call_targets_def jump_step_def
    crosses_def ConvertToGroupedData_def GetFunctions_def SetTotalInstructions_def
    GroupedProfilerData_new_def map_instructions_def group_instructions_def function_of_def
    build_function_def add_instruction_def add_call_def add_jump_def AddFunction_def
    FunctionCall_of_def

lemma crossing_run_jumps:
  "all_jumps (instruction_costs (ProcessEvents ProfilerData_new crossing_run)) =
     [(0x100, 0x200), (0x1000, 0x2000), (0x2000, 0x150)]"
  by (simp add: crossing_run_def builder_defs all_jumps_def)

lemma crossing_run_entries:
  "function_entries_of (instruction_costs (ProcessEvents ProfilerData_new crossing_run)) =
     [0x100, 0x150, 0x1000]"
  by (simp add: crossing_run_def builder_defs grouper_defs)

lemma crossing_run_entries_at_2:
  "entries_at (instruction_costs (ProcessEvents ProfilerData_new crossing_run)) 2 = [0x100, 0x1000]"
  unfolding entries_at_def crossing_run_jumps
  by (simp add: crossing_run_def builder_defs grouper_defs)

lemma crossing_only:
  "sorted_wrt (<) fe \<Longrightarrow> mn \<le> mx \<Longrightarrow> upper_bound fe mn \<noteq> lower_bound fe mx \<Longrightarrow>
   (\<exists>e \<in> set fe. mn < e \<and> e < mx) \<or> (mn = mx \<and> mn \<in> set fe)"
proof (induction fe)
  case Nil
  then show ?case by simp
next
  case (Cons x fe)
  from Cons.prems have srt: "sorted_wrt (<) fe" by simp
  show ?case
  proof (cases "mn < x")
    case True
    with Cons.prems(3) have "x < mx" by (auto split: if_splits)
    with True show ?thesis by auto
  next
    case False
    show ?thesis
    proof (cases "x < mx")
      case True
      with False Cons.prems(3) have "upper_bound fe mn \<noteq> lower_bound fe mx" by simp
      from Cons.IH [OF srt Cons.prems(2) this] show ?thesis by auto
    next
      case nlt: False
      with False Cons.prems(2) have "x = mn" "mn = mx" by auto
      then show ?thesis by simp
    qed
  qed
qed

lemma crossing_self:
  "sorted_wrt (<) fe \<Longrightarrow> a \<in> set fe \<Longrightarrow> upper_bound fe a \<noteq> lower_bound fe a"
  by (induction fe) auto

lemma crosses_iff:
  assumes "sorted_wrt (<) fe"
  shows "crosses fe s t \<longleftrightarrow>
         (\<exists>e \<in> set fe. min s t < e \<and> e < max s t) \<or> (s = t \<and> s \<in> set fe)"
proof
  assume "crosses fe s t"
  then have "upper_bound fe (min s t) \<noteq> lower_bound fe (max s t)"
    by (simp add: crosses_def Let_def)
  moreover have "min s t \<le> max s t" by (simp add: min_le_iff_disj le_max_iff_disj)
  ultimately have
    "(\<exists>e \<in> set fe. min s t < e \<and> e < max s t) \<or> (min s t = max s t \<and> min s t \<in> set fe)"
    using crossing_only [OF assms] by blast
  then show "(\<exists>e \<in> set fe. min s t < e \<and> e < max s t) \<or> (s = t \<and> s \<in> set fe)"
    by (auto simp: min_def max_def split: if_splits)
next
  assume "(\<exists>e \<in> set fe. min s t < e \<and> e < max s t) \<or> (s = t \<and> s \<in> set fe)"
  then show "crosses fe s t"
  proof
    assume "\<exists>e \<in> set fe. min s t < e \<and> e < max s t"
    from crossing [OF assms this] show ?thesis by (simp add: crosses_def Let_def)
  next
    assume "s = t \<and> s \<in> set fe"
    then have st: "s = t" and tin: "t \<in> set fe" by auto
    from crossing_self [OF assms tin] show ?thesis unfolding st by (simp add: crosses_def Let_def)
  qed
qed

lemma entries_at_step:
  assumes n: "n < length (all_jumps costs)"
  shows "set (entries_at costs (Suc n)) =
     (if (\<exists>e \<in> set (entries_at costs n).
             min (fst (all_jumps costs ! n)) (snd (all_jumps costs ! n)) < e \<and>
             e < max (fst (all_jumps costs ! n)) (snd (all_jumps costs ! n))) \<or>
         (fst (all_jumps costs ! n) = snd (all_jumps costs ! n) \<and>
          fst (all_jumps costs ! n) \<in> set (entries_at costs n))
      then insert (snd (all_jumps costs ! n)) (set (entries_at costs n))
      else set (entries_at costs n))"
proof -
  let ?acc = "fold (\<lambda>p acc. jump_step (fst p) (snd p) acc) (take n (all_jumps costs)) (call_targets costs, [])"
  have fe: "fst ?acc = entries_at costs n" by (simp add: entries_at_def)
  have srt: "sorted_wrt (<) (fst ?acc)" unfolding fe by (rule sorted_entries_at)
  let ?s = "fst (all_jumps costs ! n)" and ?t = "snd (all_jumps costs ! n)"
  have "entries_at costs (Suc n) = fst (jump_step ?s ?t ?acc)"
    by (rule entries_at_Suc [OF n])
  also have "\<dots> = (if crosses (fst ?acc) ?s ?t then set_insert ?t (fst ?acc) else fst ?acc)"
    by (simp add: jump_step_def)
  finally have step: "entries_at costs (Suc n) =
      (if crosses (entries_at costs n) ?s ?t then set_insert ?t (entries_at costs n)
       else entries_at costs n)"
    unfolding fe .
  have test: "crosses (entries_at costs n) ?s ?t \<longleftrightarrow>
      (\<exists>e \<in> set (entries_at costs n). min ?s ?t < e \<and> e < max ?s ?t) \<or>
      (?s = ?t \<and> ?s \<in> set (entries_at costs n))"
    by (rule crosses_iff [OF sorted_entries_at])
  show ?thesis
  proof (cases "crosses (entries_at costs n) ?s ?t")
    case True
    then have "set (entries_at costs (Suc n)) = insert ?t (set (entries_at costs n))"
      by (simp add: step set_set_insert)
    with True test show ?thesis by auto
  next
    case False
    then have "set (entries_at costs (Suc n)) = set (entries_at costs n)"
      by (simp add: step)
    with False test show ?thesis by auto
  qed
qed

text \<open>
  C5. The entry set left by the grouper's single pass is not closed under the promotion
  rule. On \<open>crossing_run\<close> the jump \<open>0x100 \<rightarrow> 0x200\<close> is recorded, \<open>0x150\<close> is an entry
  strictly between \<open>0x100\<close> and \<open>0x200\<close>, and \<open>0x200\<close> is not an entry: the pass visits
  \<open>0x100 \<rightarrow> 0x200\<close> first, when the entries are \<open>{0x100, 0x1000}\<close>, and only the last
  jump, \<open>0x2000 \<rightarrow> 0x150\<close>, which crosses \<open>0x1000\<close>, promotes \<open>0x150\<close>; the first jump is
  not looked at again.
\<close>

theorem single_pass_not_closed:
  "all_jumps (instruction_costs (ProcessEvents ProfilerData_new crossing_run)) =
     [(0x100, 0x200), (0x1000, 0x2000), (0x2000, 0x150)] \<and>
   function_entries_of (instruction_costs (ProcessEvents ProfilerData_new crossing_run)) =
     [0x100, 0x150, 0x1000] \<and>
   min (0x100 :: u32) 0x200 < 0x150 \<and> (0x150 :: u32) < max 0x100 0x200 \<and>
   (0x200 :: u32) \<notin> set (function_entries_of (instruction_costs (ProcessEvents ProfilerData_new crossing_run)))"
  by (simp add: crossing_run_jumps crossing_run_entries)

text \<open>
  What the single pass does do: it starts from the call targets, visits every recorded
  jump once and only adds entries; at each visit the target is added exactly when the test
  holds of the entries of that moment (\<open>entries_at_step\<close>). A jump that crosses a call
  target is therefore always promoted.
\<close>

lemma single_pass_promotion:
  "function_entries_of costs = entries_at costs (length (all_jumps costs)) \<and>
   entries_at costs 0 = call_targets costs \<and>
   (\<forall>n < length (all_jumps costs).
      set (entries_at costs n) \<subseteq> set (entries_at costs (Suc n)) \<and>
      set (entries_at costs (Suc n)) \<subseteq> insert (snd (all_jumps costs ! n)) (set (entries_at costs n)) \<and>
      ((\<exists>e \<in> set (entries_at costs n).
           min (fst (all_jumps costs ! n)) (snd (all_jumps costs ! n)) < e \<and>
           e < max (fst (all_jumps costs ! n)) (snd (all_jumps costs ! n))) \<longrightarrow>
       snd (all_jumps costs ! n) \<in> set (function_entries_of costs))) \<and>
   (\<forall>entry \<in> set costs. \<forall>jump_entry \<in> set (jumps (snd entry)).
      (\<exists>e \<in> set (call_targets costs).
           min (fst entry) (fst jump_entry) < e \<and> e < max (fst entry) (fst jump_entry)) \<longrightarrow>
      fst jump_entry \<in> set (function_entries_of costs))"
proof -
  let ?js = "all_jumps costs"
  have fin: "function_entries_of costs = entries_at costs (length ?js)"
    by (rule function_entries_of_flat)
  have seed: "entries_at costs 0 = call_targets costs"
    by (simp add: entries_at_def)
  have step: "\<forall>n < length ?js.
      set (entries_at costs n) \<subseteq> set (entries_at costs (Suc n)) \<and>
      set (entries_at costs (Suc n)) \<subseteq> insert (snd (?js ! n)) (set (entries_at costs n)) \<and>
      ((\<exists>e \<in> set (entries_at costs n).
           min (fst (?js ! n)) (snd (?js ! n)) < e \<and> e < max (fst (?js ! n)) (snd (?js ! n))) \<longrightarrow>
       snd (?js ! n) \<in> set (function_entries_of costs))"
  proof (intro allI impI conjI)
    fix n assume n: "n < length ?js"
    show "set (entries_at costs n) \<subseteq> set (entries_at costs (Suc n))"
      by (rule entries_at_mono) simp
    show "set (entries_at costs (Suc n)) \<subseteq> insert (snd (?js ! n)) (set (entries_at costs n))"
      unfolding entries_at_Suc [OF n] using jump_step_upper by (simp add: entries_at_def)
    assume "\<exists>e \<in> set (entries_at costs n).
           min (fst (?js ! n)) (snd (?js ! n)) < e \<and> e < max (fst (?js ! n)) (snd (?js ! n))"
    then show "snd (?js ! n) \<in> set (function_entries_of costs)"
      using visited_jump_promoted [OF n] by blast
  qed
  have seeds: "\<forall>entry \<in> set costs. \<forall>jump_entry \<in> set (jumps (snd entry)).
      (\<exists>e \<in> set (call_targets costs).
           min (fst entry) (fst jump_entry) < e \<and> e < max (fst entry) (fst jump_entry)) \<longrightarrow>
      fst jump_entry \<in> set (function_entries_of costs)"
  proof (intro ballI impI)
    fix entry jump_entry
    assume en: "entry \<in> set costs" and je: "jump_entry \<in> set (jumps (snd entry))"
      and ex: "\<exists>e \<in> set (call_targets costs).
           min (fst entry) (fst jump_entry) < e \<and> e < max (fst entry) (fst jump_entry)"
    from en je have "(fst entry, fst jump_entry) \<in> set ?js"
      by (auto simp: all_jumps_def)
    then obtain n where n: "n < length ?js" "?js ! n = (fst entry, fst jump_entry)"
      by (auto simp: in_set_conv_nth)
    from ex obtain e where e: "e \<in> set (call_targets costs)"
      "min (fst entry) (fst jump_entry) < e" "e < max (fst entry) (fst jump_entry)" by blast
    have "set (entries_at costs 0) \<subseteq> set (entries_at costs n)" by (rule entries_at_mono) simp
    with e seed have "e \<in> set (entries_at costs n)" by auto
    from visited_jump_promoted [OF n(1) this] e(2,3) n(2)
    show "fst jump_entry \<in> set (function_entries_of costs)" by simp
  qed
  from fin seed step seeds show ?thesis by blast
qed

theorem ConvertToGroupedData_partition_witness:
  "(0x200 :: u32) \<in> fst ` set (instruction_costs (ProcessEvents ProfilerData_new crossing_run)) \<and>
   smap_ok (GetFunctions (ConvertToGroupedData (ProcessEvents ProfilerData_new crossing_run))) \<and>
   map (\<lambda>p. (fst p, map instr_address (instructions (snd p))))
     (GetFunctions (ConvertToGroupedData (ProcessEvents ProfilerData_new crossing_run))) =
     [(0, [0]), (0x100, [0x100]), (0x150, [0x200]), (0x1000, [0x1000, 0x2000])]"
proof -
  let ?d = "ProcessEvents ProfilerData_new crossing_run"
  have a: "(0x200 :: u32) \<in> fst ` set (instruction_costs ?d)"
    by (simp add: crossing_run_def builder_defs)
  have fs: "map (\<lambda>p. (fst p, map instr_address (instructions (snd p))))
     (GetFunctions (ConvertToGroupedData ?d)) =
     [(0, [0]), (0x100, [0x100]), (0x150, [0x200]), (0x1000, [0x1000, 0x2000])]"
    by (simp add: crossing_run_def builder_defs grouper_defs)
  from ConvertToGroupedData_partition [of ?d] have "smap_ok (GetFunctions (ConvertToGroupedData ?d))"
    by blast
  with a fs show ?thesis by blast
qed

section \<open>The Callgrind serializer\<close>

declare show_dec.simps [simp del] show_hex.simps [simp del]

























section \<open>The client buffer manager\<close>

lemma record_call_store: "record_call c s = store_event (event_word c) s"
  by (cases c)
    (simp_all add: Profiler_RecordInstructionExecute_def Profiler_RecordJump_def
      Profiler_RecordCall_def Profiler_RecordReturn_def Profiler_RecordDataRead_def
      Profiler_RecordDataWrite_def Profiler_RecordInstrRead_def)

lemma record_all_append:
  "record_all (cs @ ds) s = (case record_all cs s of None \<Rightarrow> None | Some s' \<Rightarrow> record_all ds s')"
  by (induction cs arbitrary: s) (simp_all split: option.split)

lemma store_event_inside:
  assumes "profiler_current_buffer_ptr s = Some (b, k)"
    and "profiler_buffer_end_ptr s = Some (b, BUFFER_SIZE)"
    and "Suc k < BUFFER_SIZE"
  shows "store_event v s =
     Some (s\<lparr>buffer_pool := (buffer_pool s)(b := (buffer_pool s b)
                \<lparr>events := (events (buffer_pool s b))(k := v)\<rparr>),
             profiler_current_buffer_ptr := Some (b, Suc k)\<rparr>)"
  using assms by (simp add: store_event_def Let_def)

lemma store_event_last:
  assumes "profiler_current_buffer_ptr s = Some (b, k)"
    and "profiler_buffer_end_ptr s = Some (b, BUFFER_SIZE)"
    and "Suc k = BUFFER_SIZE"
    and "current_buffer s = Some b"
    and "empty_buffers s = b' # rest"
  shows "store_event v s =
     Some (s\<lparr>buffer_pool := (buffer_pool s)(b := (buffer_pool s b)
                \<lparr>events := (events (buffer_pool s b))(k := v), count := BUFFER_SIZE\<rparr>),
             filled_buffers := filled_buffers s @ [b],
             empty_buffers := rest,
             current_buffer := Some b',
             profiler_current_buffer_ptr := Some (b', 0),
             profiler_buffer_end_ptr := Some (b', BUFFER_SIZE)\<rparr>)"
  using assms
  by (simp add: store_event_def Let_def Profiler_SwitchBuffer_def SwitchBuffer_def
      PushFilledBuffer_def GetEmptyBuffer_def UpdateGlobalPointers_def)

text \<open>Writes that stay inside the current buffer.\<close>

lemma record_all_inside:
  assumes "profiler_current_buffer_ptr s = Some (b, k)"
    and "profiler_buffer_end_ptr s = Some (b, BUFFER_SIZE)"
    and "k + length cs < BUFFER_SIZE"
  shows "\<exists>s'. record_all cs s = Some s' \<and>
           profiler_current_buffer_ptr s' = Some (b, k + length cs) \<and>
           profiler_buffer_end_ptr s' = profiler_buffer_end_ptr s \<and>
           filled_buffers s' = filled_buffers s \<and>
           empty_buffers s' = empty_buffers s \<and>
           current_buffer s' = current_buffer s \<and>
           (\<forall>i. events (buffer_pool s' b) i =
                  (if k \<le> i \<and> i < k + length cs then event_word (cs ! (i - k))
                   else events (buffer_pool s b) i)) \<and>
           (\<forall>b''. b'' \<noteq> b \<longrightarrow> buffer_pool s' b'' = buffer_pool s b'')"
  using assms
proof (induction cs arbitrary: s k)
  case Nil
  then show ?case by auto
next
  case (Cons c cs)
  let ?s1 = "s\<lparr>buffer_pool := (buffer_pool s)(b := (buffer_pool s b)
                \<lparr>events := (events (buffer_pool s b))(k := event_word c)\<rparr>),
             profiler_current_buffer_ptr := Some (b, Suc k)\<rparr>"
  from Cons.prems have lt: "Suc k < BUFFER_SIZE" by simp
  have step: "record_call c s = Some ?s1"
    unfolding record_call_store by (rule store_event_inside [OF Cons.prems(1,2) lt])
  have p1: "profiler_current_buffer_ptr ?s1 = Some (b, Suc k)" by simp
  have e1: "profiler_buffer_end_ptr ?s1 = Some (b, BUFFER_SIZE)" using Cons.prems(2) by simp
  have l1: "Suc k + length cs < BUFFER_SIZE" using Cons.prems(3) by simp
  from Cons.IH [OF p1 e1 l1] obtain s' where s': "record_all cs ?s1 = Some s'"
    "profiler_current_buffer_ptr s' = Some (b, Suc k + length cs)"
    "profiler_buffer_end_ptr s' = profiler_buffer_end_ptr ?s1"
    "filled_buffers s' = filled_buffers ?s1"
    "empty_buffers s' = empty_buffers ?s1"
    "current_buffer s' = current_buffer ?s1"
    "\<forall>i. events (buffer_pool s' b) i =
          (if Suc k \<le> i \<and> i < Suc k + length cs then event_word (cs ! (i - Suc k))
           else events (buffer_pool ?s1 b) i)"
    "\<forall>b''. b'' \<noteq> b \<longrightarrow> buffer_pool s' b'' = buffer_pool ?s1 b''"
    by blast
  have content: "\<forall>i. events (buffer_pool s' b) i =
      (if k \<le> i \<and> i < k + length (c # cs) then event_word ((c # cs) ! (i - k))
       else events (buffer_pool s b) i)"
  proof
    fix i
    show "events (buffer_pool s' b) i =
      (if k \<le> i \<and> i < k + length (c # cs) then event_word ((c # cs) ! (i - k))
       else events (buffer_pool s b) i)"
    proof (cases "i = k")
      case True
      then show ?thesis using s'(7) by simp
    next
      case False
      then show ?thesis using s'(7) by (auto simp: nth_Cons' Suc_diff_Suc le_Suc_eq)
    qed
  qed
  have "record_all (c # cs) s = Some s'" using step s'(1) by simp
  moreover have "profiler_current_buffer_ptr s' = Some (b, k + length (c # cs))" using s'(2) by simp
  moreover have "profiler_buffer_end_ptr s' = profiler_buffer_end_ptr s" using s'(3) by simp
  moreover have "filled_buffers s' = filled_buffers s" using s'(4) by simp
  moreover have "empty_buffers s' = empty_buffers s" using s'(5) by simp
  moreover have "current_buffer s' = current_buffer s" using s'(6) by simp
  moreover have "\<forall>b''. b'' \<noteq> b \<longrightarrow> buffer_pool s' b'' = buffer_pool s b''" using s'(8) by simp
  ultimately show ?case using content by blast
qed

lemma BUFFER_SIZE_gt: "1 < BUFFER_SIZE"
  by (simp add: BUFFER_SIZE_def)

text \<open>Writes that fill the current buffer exactly.\<close>

lemma record_all_fill:
  assumes ptr: "profiler_current_buffer_ptr s = Some (b, 0)"
    and endp: "profiler_buffer_end_ptr s = Some (b, BUFFER_SIZE)"
    and cur: "current_buffer s = Some b"
    and emp: "empty_buffers s = b' # rest"
    and len: "length cs = BUFFER_SIZE"
  shows "\<exists>s'. record_all cs s = Some s' \<and>
           filled_buffers s' = filled_buffers s @ [b] \<and>
           empty_buffers s' = rest \<and>
           current_buffer s' = Some b' \<and>
           profiler_current_buffer_ptr s' = Some (b', 0) \<and>
           profiler_buffer_end_ptr s' = Some (b', BUFFER_SIZE) \<and>
           count (buffer_pool s' b) = BUFFER_SIZE \<and>
           (\<forall>i < BUFFER_SIZE. events (buffer_pool s' b) i = event_word (cs ! i)) \<and>
           (\<forall>b''. b'' \<noteq> b \<longrightarrow> buffer_pool s' b'' = buffer_pool s b'')"
proof -
  obtain m where m: "BUFFER_SIZE = Suc m" using BUFFER_SIZE_gt by (cases BUFFER_SIZE) simp_all
  let ?ds = "take m cs"
  let ?c = "cs ! m"
  have split: "cs = ?ds @ [?c]"
    using len m by (metis lessI take_Suc_conv_app_nth take_all order_refl)
  have lds: "length ?ds = m" using len m by simp
  have "0 + length ?ds < BUFFER_SIZE" using lds m by simp
  from record_all_inside [OF ptr endp this] obtain s1 where raw:
    "record_all ?ds s = Some s1"
    "profiler_current_buffer_ptr s1 = Some (b, 0 + length ?ds)"
    "profiler_buffer_end_ptr s1 = profiler_buffer_end_ptr s"
    "filled_buffers s1 = filled_buffers s"
    "empty_buffers s1 = empty_buffers s"
    "current_buffer s1 = current_buffer s"
    "\<forall>i. events (buffer_pool s1 b) i =
          (if 0 \<le> i \<and> i < 0 + length ?ds then event_word (?ds ! (i - 0))
           else events (buffer_pool s b) i)"
    "\<forall>b''. b'' \<noteq> b \<longrightarrow> buffer_pool s1 b'' = buffer_pool s b''"
    by blast
  have s1: "record_all ?ds s = Some s1"
    "profiler_current_buffer_ptr s1 = Some (b, m)"
    "profiler_buffer_end_ptr s1 = Some (b, BUFFER_SIZE)"
    "filled_buffers s1 = filled_buffers s"
    "empty_buffers s1 = b' # rest"
    "current_buffer s1 = Some b"
    "\<forall>i. events (buffer_pool s1 b) i =
          (if i < m then event_word (cs ! i) else events (buffer_pool s b) i)"
    "\<forall>b''. b'' \<noteq> b \<longrightarrow> buffer_pool s1 b'' = buffer_pool s b''"
    using raw lds endp emp cur len m by simp_all
  let ?s2 = "s1\<lparr>buffer_pool := (buffer_pool s1)(b := (buffer_pool s1 b)
                \<lparr>events := (events (buffer_pool s1 b))(m := event_word ?c), count := BUFFER_SIZE\<rparr>),
             filled_buffers := filled_buffers s1 @ [b],
             empty_buffers := rest,
             current_buffer := Some b',
             profiler_current_buffer_ptr := Some (b', 0),
             profiler_buffer_end_ptr := Some (b', BUFFER_SIZE)\<rparr>"
  have last: "record_call ?c s1 = Some ?s2"
    unfolding record_call_store
    by (rule store_event_last [OF s1(2) s1(3) m [symmetric] s1(6) s1(5)])
  have run: "record_all cs s = Some ?s2"
    by (subst split) (simp add: record_all_append s1(1) last)
  have content: "\<forall>i < BUFFER_SIZE. events (buffer_pool ?s2 b) i = event_word (cs ! i)"
  proof (intro allI impI)
    fix i assume "i < BUFFER_SIZE"
    then have "i < m \<or> i = m" using m by auto
    then show "events (buffer_pool ?s2 b) i = event_word (cs ! i)"
      using s1(7) by auto
  qed
  have others: "\<forall>b''. b'' \<noteq> b \<longrightarrow> buffer_pool ?s2 b'' = buffer_pool s b''"
    using s1(8) by simp
  have "filled_buffers ?s2 = filled_buffers s @ [b]" using s1(4) by simp
  moreover have "empty_buffers ?s2 = rest" by simp
  moreover have "current_buffer ?s2 = Some b'" by simp
  moreover have "profiler_current_buffer_ptr ?s2 = Some (b', 0)" by simp
  moreover have "profiler_buffer_end_ptr ?s2 = Some (b', BUFFER_SIZE)" by simp
  moreover have "count (buffer_pool ?s2 b) = BUFFER_SIZE" by simp
  ultimately show ?thesis using run content others by blast
qed

text \<open>
  C9. Let the current buffer \<open>b\<close> be freshly acquired (write pointer at its start) and let
  the empty queue hold another buffer \<open>b'\<close> at its front. Of \<open>BUFFER_SIZE + 1 = 8193\<close>
  recorder calls, the first \<open>n < 8192\<close> leave both queues as they were and the pointer at
  offset \<open>n\<close> of \<open>b\<close>; the 8192nd brings the pointer to the end of \<open>b\<close> and switches:
  \<open>b\<close> is pushed on the filled queue with count 8192 and \<open>b'\<close> becomes current; the 8193rd
  stores its word at offset 0 of \<open>b'\<close> and switches nothing. Every switch pushes one buffer
  on the filled queue, so the queue having grown by exactly \<open>b\<close> is exactly one switch.
\<close>

theorem one_switch_at_capacity:
  assumes len: "length cs = BUFFER_SIZE + 1"
    and cur: "current_buffer s0 = Some b"
    and ptr: "profiler_current_buffer_ptr s0 = Some (b, 0)"
    and endp: "profiler_buffer_end_ptr s0 = Some (b, BUFFER_SIZE)"
    and emp: "empty_buffers s0 = b' # rest"
    and neq: "b' \<noteq> b"
  shows
   "(\<forall>n < BUFFER_SIZE. \<exists>s. record_all (take n cs) s0 = Some s \<and>
        filled_buffers s = filled_buffers s0 \<and> empty_buffers s = b' # rest \<and>
        current_buffer s = Some b \<and> profiler_current_buffer_ptr s = Some (b, n)) \<and>
    (\<exists>s. record_all (take BUFFER_SIZE cs) s0 = Some s \<and>
        filled_buffers s = filled_buffers s0 @ [b] \<and> empty_buffers s = rest \<and>
        current_buffer s = Some b' \<and> profiler_current_buffer_ptr s = Some (b', 0) \<and>
        count (buffer_pool s b) = BUFFER_SIZE) \<and>
    (\<exists>s. record_all cs s0 = Some s \<and>
        filled_buffers s = filled_buffers s0 @ [b] \<and> empty_buffers s = rest \<and>
        current_buffer s = Some b' \<and> profiler_current_buffer_ptr s = Some (b', 1) \<and>
        count (buffer_pool s b) = BUFFER_SIZE \<and>
        (\<forall>i < BUFFER_SIZE. events (buffer_pool s b) i = event_word (cs ! i)) \<and>
        events (buffer_pool s b') 0 = event_word (cs ! BUFFER_SIZE))"
proof -
  have before: "\<forall>n < BUFFER_SIZE. \<exists>s. record_all (take n cs) s0 = Some s \<and>
        filled_buffers s = filled_buffers s0 \<and> empty_buffers s = b' # rest \<and>
        current_buffer s = Some b \<and> profiler_current_buffer_ptr s = Some (b, n)"
  proof (intro allI impI)
    fix n assume n: "n < BUFFER_SIZE"
    then have ln: "length (take n cs) = n" using len by simp
    then have "0 + length (take n cs) < BUFFER_SIZE" using n by simp
    from record_all_inside [OF ptr endp this] ln cur emp
    show "\<exists>s. record_all (take n cs) s0 = Some s \<and>
        filled_buffers s = filled_buffers s0 \<and> empty_buffers s = b' # rest \<and>
        current_buffer s = Some b \<and> profiler_current_buffer_ptr s = Some (b, n)"
      by auto
  qed
  let ?ds = "take BUFFER_SIZE cs"
  have lds: "length ?ds = BUFFER_SIZE" using len by simp
  from record_all_fill [OF ptr endp cur emp lds] obtain s2 where s2:
    "record_all ?ds s0 = Some s2"
    "filled_buffers s2 = filled_buffers s0 @ [b]"
    "empty_buffers s2 = rest"
    "current_buffer s2 = Some b'"
    "profiler_current_buffer_ptr s2 = Some (b', 0)"
    "profiler_buffer_end_ptr s2 = Some (b', BUFFER_SIZE)"
    "count (buffer_pool s2 b) = BUFFER_SIZE"
    "\<forall>i < BUFFER_SIZE. events (buffer_pool s2 b) i = event_word (?ds ! i)"
    by blast
  have at: "\<exists>s. record_all ?ds s0 = Some s \<and>
        filled_buffers s = filled_buffers s0 @ [b] \<and> empty_buffers s = rest \<and>
        current_buffer s = Some b' \<and> profiler_current_buffer_ptr s = Some (b', 0) \<and>
        count (buffer_pool s b) = BUFFER_SIZE"
    using s2 by blast
  let ?c = "cs ! BUFFER_SIZE"
  have split: "cs = ?ds @ [?c]"
    using len by (metis Suc_eq_plus1 lessI take_Suc_conv_app_nth take_all order_refl)
  let ?s3 = "s2\<lparr>buffer_pool := (buffer_pool s2)(b' := (buffer_pool s2 b')
                \<lparr>events := (events (buffer_pool s2 b'))(0 := event_word ?c)\<rparr>),
             profiler_current_buffer_ptr := Some (b', Suc 0)\<rparr>"
  have "Suc 0 < BUFFER_SIZE" using BUFFER_SIZE_gt by simp
  from store_event_inside [OF s2(5) s2(6) this]
  have step: "record_call ?c s2 = Some ?s3" unfolding record_call_store .
  have run: "record_all cs s0 = Some ?s3"
    by (subst split) (simp add: record_all_append s2(1) step)
  have content: "\<forall>i < BUFFER_SIZE. events (buffer_pool ?s3 b) i = event_word (cs ! i)"
    using s2(8) neq by simp
  have after: "\<exists>s. record_all cs s0 = Some s \<and>
        filled_buffers s = filled_buffers s0 @ [b] \<and> empty_buffers s = rest \<and>
        current_buffer s = Some b' \<and> profiler_current_buffer_ptr s = Some (b', 1) \<and>
        count (buffer_pool s b) = BUFFER_SIZE \<and>
        (\<forall>i < BUFFER_SIZE. events (buffer_pool s b) i = event_word (cs ! i)) \<and>
        events (buffer_pool s b') 0 = event_word (cs ! BUFFER_SIZE)"
  proof (intro exI conjI)
    show "record_all cs s0 = Some ?s3" by (rule run)
    show "filled_buffers ?s3 = filled_buffers s0 @ [b]" using s2(2) by simp
    show "empty_buffers ?s3 = rest" using s2(3) by simp
    show "current_buffer ?s3 = Some b'" using s2(4) by simp
    show "profiler_current_buffer_ptr ?s3 = Some (b', 1)" by simp
    show "count (buffer_pool ?s3 b) = BUFFER_SIZE" using s2(7) neq by simp
    show "\<forall>i < BUFFER_SIZE. events (buffer_pool ?s3 b) i = event_word (cs ! i)" by (rule content)
    show "events (buffer_pool ?s3 b') 0 = event_word (cs ! BUFFER_SIZE)" by simp
  qed
  from before at after show ?thesis by blast
qed

lemma pool_indices: "[0..<BUFFER_POOL_SIZE] = [0, 1, 2, 3, 4, 5, 6, 7, 8, 9, 10, 11, 12, 13, 14, 15]"
  by (simp add: BUFFER_POOL_SIZE_def upt_conv_Cons)

lemma InitializeEmptyBuffers_fold:
  "empty_buffers (fold (\<lambda>i s'. s'\<lparr>buffer_pool := (buffer_pool s')(i := (buffer_pool s' i)\<lparr>count := 0\<rparr>),
                     empty_buffers := empty_buffers s' @ [i]\<rparr>) xs s) = empty_buffers s @ xs \<and>
   filled_buffers (fold (\<lambda>i s'. s'\<lparr>buffer_pool := (buffer_pool s')(i := (buffer_pool s' i)\<lparr>count := 0\<rparr>),
                     empty_buffers := empty_buffers s' @ [i]\<rparr>) xs s) = filled_buffers s \<and>
   running (fold (\<lambda>i s'. s'\<lparr>buffer_pool := (buffer_pool s')(i := (buffer_pool s' i)\<lparr>count := 0\<rparr>),
                     empty_buffers := empty_buffers s' @ [i]\<rparr>) xs s) = running s"
  by (induction xs arbitrary: s) simp_all

lemma started_queues:
  "empty_buffers (started pool) = [0, 1, 2, 3, 4, 5, 6, 7, 8, 9, 10, 11, 12, 13, 14, 15] \<and>
   filled_buffers (started pool) = [] \<and> running (started pool)"
  by (simp add: started_def Start_def InitializeEmptyBuffers_def InitializeEmptyBuffers_fold
      pool_indices)

lemma InitializeClient_started:
  "\<exists>s. InitializeClient (started pool) = Some s \<and>
       current_buffer s = Some 0 \<and>
       profiler_current_buffer_ptr s = Some (0, 0) \<and>
       profiler_buffer_end_ptr s = Some (0, BUFFER_SIZE) \<and>
       empty_buffers s = [1, 2, 3, 4, 5, 6, 7, 8, 9, 10, 11, 12, 13, 14, 15] \<and>
       filled_buffers s = []"
  using started_queues [of pool]
  by (simp add: InitializeClient_def GetEmptyBuffer_def UpdateGlobalPointers_def)

lemma example_client_fresh:
  "current_buffer example_client = Some 0 \<and>
   profiler_current_buffer_ptr example_client = Some (0, 0) \<and>
   profiler_buffer_end_ptr example_client = Some (0, BUFFER_SIZE) \<and>
   empty_buffers example_client = [1, 2, 3, 4, 5, 6, 7, 8, 9, 10, 11, 12, 13, 14, 15] \<and>
   filled_buffers example_client = []"
  using InitializeClient_started [of example_pool] by (auto simp: example_client_def)

theorem one_switch_at_capacity_witness:
  "length (replicate 8193 (RecordInstructionExecute 0x1000)) = BUFFER_SIZE + 1 \<and>
   current_buffer example_client = Some 0 \<and>
   profiler_current_buffer_ptr example_client = Some (0, 0) \<and>
   profiler_buffer_end_ptr example_client = Some (0, BUFFER_SIZE) \<and>
   empty_buffers example_client = [1, 2, 3, 4, 5, 6, 7, 8, 9, 10, 11, 12, 13, 14, 15] \<and>
   (\<exists>s. record_all (replicate 8193 (RecordInstructionExecute 0x1000)) example_client = Some s \<and>
        filled_buffers s = [0] \<and>
        current_buffer s = Some 1 \<and>
        profiler_current_buffer_ptr s = Some (1, 1) \<and>
        count (buffer_pool s 0) = 8192 \<and>
        events (buffer_pool s 1) 0 = 0x1000)"
proof -
  let ?cs = "replicate 8193 (RecordInstructionExecute 0x1000)"
  have len: "length ?cs = BUFFER_SIZE + 1" by (simp add: BUFFER_SIZE_def)
  have cur: "current_buffer example_client = Some 0"
    and ptr: "profiler_current_buffer_ptr example_client = Some (0, 0)"
    and endp: "profiler_buffer_end_ptr example_client = Some (0, BUFFER_SIZE)"
    and emp: "empty_buffers example_client = 1 # [2, 3, 4, 5, 6, 7, 8, 9, 10, 11, 12, 13, 14, 15]"
    and fil: "filled_buffers example_client = []"
    using example_client_fresh by simp_all
  have neq: "(1::nat) \<noteq> 0" by simp
  have word: "event_word (?cs ! BUFFER_SIZE) = 0x1000"
    by (simp add: BUFFER_SIZE_def)
  from one_switch_at_capacity [OF len cur ptr endp emp neq]
  have "\<exists>s. record_all ?cs example_client = Some s \<and>
        filled_buffers s = filled_buffers example_client @ [0] \<and>
        current_buffer s = Some 1 \<and> profiler_current_buffer_ptr s = Some (1, 1) \<and>
        count (buffer_pool s 0) = BUFFER_SIZE \<and>
        events (buffer_pool s 1) 0 = event_word (?cs ! BUFFER_SIZE)"
    by blast
  then have "\<exists>s. record_all ?cs example_client = Some s \<and>
        filled_buffers s = [0] \<and>
        current_buffer s = Some 1 \<and> profiler_current_buffer_ptr s = Some (1, 1) \<and>
        count (buffer_pool s 0) = 8192 \<and>
        events (buffer_pool s 1) 0 = 0x1000"
    unfolding word fil by (simp add: BUFFER_SIZE_def)
  with len cur ptr endp emp show ?thesis by simp
qed

section \<open>References of frames always resolve\<close>



lemma list_all_smap_modify:
  "list_all (\<lambda>e. P (snd e)) m \<Longrightarrow> P (f d) \<Longrightarrow> (\<forall>v. P v \<longrightarrow> P (f v)) \<Longrightarrow>
   list_all (\<lambda>e. P (snd e)) (smap_modify f d k m)"
  by (induction f d k m rule: smap_modify.induct) simp_all

lemma list_all_smap_at:
  "list_all (\<lambda>e. P (snd e)) m \<Longrightarrow> (\<forall>v. P v \<longrightarrow> P (f v)) \<Longrightarrow>
   list_all (\<lambda>e. P (snd e)) (smap_at f k m)"
  by (induction f k m rule: smap_at.induct) simp_all

lemma inner_ok_new: "inner_ok InstructionCost_new"
  by (simp add: inner_ok_def InstructionCost_new_def smap_ok_def)

lemma wf_costs_modify:
  "wf_costs m \<Longrightarrow> grows f \<Longrightarrow> wf_costs (smap_modify f InstructionCost_new k m)"
  unfolding wf_costs_def grows_def
  using inner_ok_new by (simp add: smap_ok_smap_modify list_all_smap_modify)

lemma wf_costs_at: "wf_costs m \<Longrightarrow> grows f \<Longrightarrow> wf_costs (smap_at f k m)"
  unfolding wf_costs_def grows_def by (simp add: smap_ok_smap_at list_all_smap_at)

lemma extends_modify:
  assumes "smap_ok m" and "grows f"
  shows "extends m (smap_modify f d k m)"
  unfolding extends_def
proof (intro allI conjI impI)
  fix r :: "u32 \<times> u32"
  have same: "map_of (smap_modify f d k m) k = Some (f (case map_of m k of None \<Rightarrow> d | Some v \<Rightarrow> v))"
    by (rule map_of_smap_modify_same [OF assms(1)])
  have other: "fst r \<noteq> k \<Longrightarrow> map_of (smap_modify f d k m) (fst r) = map_of m (fst r)"
    by (rule map_of_smap_modify_other)
  {
    assume h: "has_edge calls m r"
    show "has_edge calls (smap_modify f d k m) r"
    proof (cases "fst r = k")
      case True
      with h obtain c where c: "map_of m k = Some c" "snd r \<in> fst ` set (calls c)"
        by (auto simp: has_edge_def split: option.splits)
      with assms(2) have "snd r \<in> fst ` set (calls (f c))" unfolding grows_def by blast
      with True same c show ?thesis by (simp add: has_edge_def)
    next
      case False
      with h other show ?thesis by (simp add: has_edge_def)
    qed
  }
  {
    assume h: "has_edge jumps m r"
    show "has_edge jumps (smap_modify f d k m) r"
    proof (cases "fst r = k")
      case True
      with h obtain c where c: "map_of m k = Some c" "snd r \<in> fst ` set (jumps c)"
        by (auto simp: has_edge_def split: option.splits)
      with assms(2) have "snd r \<in> fst ` set (jumps (f c))" unfolding grows_def by blast
      with True same c show ?thesis by (simp add: has_edge_def)
    next
      case False
      with h other show ?thesis by (simp add: has_edge_def)
    qed
  }
qed

lemma extends_at:
  assumes "grows f"
  shows "extends m (smap_at f k m)"
  unfolding extends_def
proof (intro allI conjI impI)
  fix r :: "u32 \<times> u32"
  {
    assume h: "has_edge calls m r"
    then obtain c where c: "map_of m (fst r) = Some c" "snd r \<in> fst ` set (calls c)"
      by (auto simp: has_edge_def split: option.splits)
    with assms have fc: "snd r \<in> fst ` set (calls (f c))" unfolding grows_def by blast
    show "has_edge calls (smap_at f k m) r"
    proof (cases "fst r = k")
      case True
      with c(1) fc show ?thesis by (simp add: has_edge_def map_of_smap_at)
    next
      case False
      with c show ?thesis by (simp add: has_edge_def map_of_smap_at)
    qed
  }
  {
    assume h: "has_edge jumps m r"
    then obtain c where c: "map_of m (fst r) = Some c" "snd r \<in> fst ` set (jumps c)"
      by (auto simp: has_edge_def split: option.splits)
    with assms have fc: "snd r \<in> fst ` set (jumps (f c))" unfolding grows_def by blast
    show "has_edge jumps (smap_at f k m) r"
    proof (cases "fst r = k")
      case True
      with c(1) fc show ?thesis by (simp add: has_edge_def map_of_smap_at)
    next
      case False
      with c show ?thesis by (simp add: has_edge_def map_of_smap_at)
    qed
  }
qed

lemma extends_refl: "extends m m"
  by (simp add: extends_def)

lemma extends_trans: "extends a b \<Longrightarrow> extends b c \<Longrightarrow> extends a c"
  by (simp add: extends_def)

lemma frame_ok_extends: "extends m m' \<Longrightarrow> frame_ok m fr \<Longrightarrow> frame_ok m' fr"
  unfolding frame_ok_def extends_def by (auto simp: list_all_iff simp del: split_paired_All)

lemma frames_ok_extends: "extends m m' \<Longrightarrow> list_all (frame_ok m) st \<Longrightarrow> list_all (frame_ok m') st"
  using frame_ok_extends by (auto simp: list_all_iff)

text \<open>The mutations of the builder only grow the maps.\<close>

lemma smap_ok_keys_at: "fst ` set (smap_at f k m) = fst ` set m"
  using keys_smap_at [of f k m] by (metis set_map)

lemma grows_calls_at: "grows (\<lambda>c. c\<lparr>calls := smap_at f t (calls c)\<rparr>)"
  by (simp add: grows_def inner_ok_def smap_ok_smap_at smap_ok_keys_at)

lemma grows_jumps_at: "grows (\<lambda>c. c\<lparr>jumps := smap_at f t (jumps c)\<rparr>)"
  by (simp add: grows_def inner_ok_def smap_ok_smap_at smap_ok_keys_at)

lemma grows_calls_modify: "grows (\<lambda>c. c\<lparr>calls := smap_modify f d t (calls c)\<rparr>)"
  by (auto simp: grows_def inner_ok_def smap_ok_smap_modify keys_smap_modify)

lemma grows_jumps_modify: "grows (\<lambda>c. c\<lparr>jumps := smap_modify f d t (jumps c)\<rparr>)"
  by (auto simp: grows_def inner_ok_def smap_ok_smap_modify keys_smap_modify)

lemma grows_self_cost: "grows (\<lambda>c. c\<lparr>self_cost := g c\<rparr>)"
  by (simp add: grows_def inner_ok_def)

lemma grows_data_reads: "grows (\<lambda>c. c\<lparr>data_reads := g c\<rparr>)"
  by (simp add: grows_def inner_ok_def)

lemma grows_data_writes: "grows (\<lambda>c. c\<lparr>data_writes := g c\<rparr>)"
  by (simp add: grows_def inner_ok_def)

lemma grows_instr_fetches: "grows (\<lambda>c. c\<lparr>instr_fetches := g c\<rparr>)"
  by (simp add: grows_def inner_ok_def)

lemma via_call_wf: "wf_costs m \<Longrightarrow> wf_costs (via_call f r m) \<and> extends m (via_call f r m)"
  unfolding via_call_def by (simp add: wf_costs_at extends_at grows_calls_at)

lemma via_jump_wf: "wf_costs m \<Longrightarrow> wf_costs (via_jump f r m) \<and> extends m (via_jump f r m)"
  unfolding via_jump_def by (simp add: wf_costs_at extends_at grows_jumps_at)

lemma fold_via_jump_wf:
  "wf_costs m \<Longrightarrow> wf_costs (fold (via_jump f) rs m) \<and> extends m (fold (via_jump f) rs m)"
proof (induction rs arbitrary: m)
  case Nil
  then show ?case by (simp add: extends_refl)
next
  case (Cons r rs)
  from via_jump_wf [OF Cons.prems, of f r]
  have 1: "wf_costs (via_jump f r m)" and 2: "extends m (via_jump f r m)" by simp_all
  from Cons.IH [OF 1] 2 show ?case by (auto intro: extends_trans)
qed

lemma for_frame_wf:
  "wf_costs m \<Longrightarrow> wf_costs (for_frame f fr m) \<and> extends m (for_frame f fr m)"
proof -
  assume m: "wf_costs m"
  from via_call_wf [OF m, of f "call_info fr"]
  have 1: "wf_costs (via_call f (call_info fr) m)" and 2: "extends m (via_call f (call_info fr) m)"
    by simp_all
  from fold_via_jump_wf [OF 1, of f "map snd (jump_refs fr)"] 2
  show ?thesis unfolding for_frame_def by (auto intro: extends_trans)
qed

lemma for_all_frames_wf:
  "wf_costs m \<Longrightarrow> wf_costs (for_all_frames f st m) \<and> extends m (for_all_frames f st m)"
  unfolding for_all_frames_def
proof (induction st arbitrary: m)
  case Nil
  then show ?case by (simp add: extends_refl)
next
  case (Cons fr st)
  from for_frame_wf [OF Cons.prems, of f fr]
  have 1: "wf_costs (for_frame f fr m)" and 2: "extends m (for_frame f fr m)" by simp_all
  from Cons.IH [OF 1] 2 show ?case by (auto intro: extends_trans)
qed

lemma has_edge_new:
  assumes "\<And>v. t \<in> fst ` set (sel (f v))"
  shows "has_edge sel (smap_modify f d k m) (k, t)"
proof -
  obtain v where "map_of (smap_modify f d k m) k = Some (f v)"
    using map_of_smap_modify_hit [of f d k m] by blast
  with assms [of v] show ?thesis by (simp add: has_edge_def)
qed

lemma modify_wf:
  assumes "wf_costs m" and "grows f"
  shows "wf_costs (smap_modify f InstructionCost_new k m) \<and>
         extends m (smap_modify f InstructionCost_new k m)"
proof
  show "wf_costs (smap_modify f InstructionCost_new k m)" by (rule wf_costs_modify [OF assms])
  have "smap_ok m" using assms(1) by (simp add: wf_costs_def)
  then show "extends m (smap_modify f InstructionCost_new k m)" using assms(2) by (rule extends_modify)
qed

lemma list_all_butlast: "list_all P st \<Longrightarrow> list_all P (butlast st)"
  by (auto simp: list_all_iff dest: in_set_butlastD)

lemma list_all_pop_frames: "list_all P st \<Longrightarrow> list_all P (pop_frames n st)"
  by (induction n arbitrary: st) (simp_all add: list_all_butlast)

lemma wf_state_Clear: "wf_state (Clear s)"
  by (simp add: wf_state_def Clear_def wf_costs_def smap_ok_def)

lemma wf_state_ProcessInstructionExecute:
  assumes "wf_state s"
  shows "wf_state (ProcessInstructionExecute s a)"
proof -
  let ?m = "instruction_costs s"
  let ?m1 = "smap_modify (\<lambda>c. c\<lparr>self_cost := self_cost c + 1\<rparr>) InstructionCost_new a ?m"
  let ?g = "\<lambda>c. c\<lparr>calls := smap_modify (\<lambda>i. i\<lparr>call_count := call_count i + 1\<rparr>) CallInfo_new a (calls c)\<rparr>"
  let ?m2 = "smap_modify ?g InstructionCost_new 0 ?m1"
  let ?h = "\<lambda>i. i\<lparr>inclusive_instructions := inclusive_instructions i + 1\<rparr>"
  from assms have wf: "wf_costs ?m" and st: "list_all (frame_ok ?m) (call_stack s)"
    by (simp_all add: wf_state_def)
  from modify_wf [OF wf grows_self_cost, of "\<lambda>c. self_cost c + 1" a]
  have wf1: "wf_costs ?m1" and ex1: "extends ?m ?m1" by simp_all
  from frames_ok_extends [OF ex1 st] have st1: "list_all (frame_ok ?m1) (call_stack s)" .
  show ?thesis
  proof (cases "call_stack s = []")
    case True
    from modify_wf [OF wf1 grows_calls_modify, of _ CallInfo_new a 0]
    have wf2: "wf_costs ?m2" by simp
    have "has_edge calls ?m2 (0, a)"
      by (rule has_edge_new) (simp add: keys_smap_modify)
    then have fr: "list_all (frame_ok ?m2) [CallFrame_new a 0 0 (0, a)]"
      by (simp add: frame_ok_def CallFrame_new_def)
    from for_all_frames_wf [OF wf2, of ?h "[CallFrame_new a 0 0 (0, a)]"]
    have wf3: "wf_costs (for_all_frames ?h [CallFrame_new a 0 0 (0, a)] ?m2)"
      and ex3: "extends ?m2 (for_all_frames ?h [CallFrame_new a 0 0 (0, a)] ?m2)" by simp_all
    from frames_ok_extends [OF ex3 fr] wf3 True show ?thesis
      by (simp add: wf_state_def ProcessInstructionExecute_def Let_def)
  next
    case False
    from for_all_frames_wf [OF wf1, of ?h "call_stack s"]
    have wf3: "wf_costs (for_all_frames ?h (call_stack s) ?m1)"
      and ex3: "extends ?m1 (for_all_frames ?h (call_stack s) ?m1)" by simp_all
    from frames_ok_extends [OF ex3 st1] wf3 False show ?thesis
      by (simp add: wf_state_def ProcessInstructionExecute_def Let_def)
  qed
qed

lemma wf_state_ProcessJump:
  assumes "wf_state s"
  shows "wf_state (ProcessJump s a)"
proof -
  let ?m = "instruction_costs s"
  let ?pc = "current_pc s"
  let ?g = "\<lambda>c. c\<lparr>jumps := smap_modify (\<lambda>i. i\<lparr>call_count := call_count i + 1\<rparr>) CallInfo_new a (jumps c)\<rparr>"
  let ?m1 = "smap_modify ?g InstructionCost_new ?pc ?m"
  from assms have wf: "wf_costs ?m" and st: "list_all (frame_ok ?m) (call_stack s)"
    by (simp_all add: wf_state_def)
  from modify_wf [OF wf grows_jumps_modify, of _ CallInfo_new a ?pc]
  have wf1: "wf_costs ?m1" and ex1: "extends ?m ?m1" by simp_all
  from frames_ok_extends [OF ex1 st] have st1: "list_all (frame_ok ?m1) (call_stack s)" .
  have edge: "has_edge jumps ?m1 (?pc, a)"
    by (rule has_edge_new) (simp add: keys_smap_modify)
  show ?thesis
  proof (cases "call_stack s = []")
    case True
    with wf1 show ?thesis by (simp add: wf_state_def ProcessJump_def Let_def)
  next
    case False
    let ?top = "last (call_stack s)"
    let ?refs = "smap_modify (\<lambda>_. (?pc, a)) (?pc, a) (?pc, a) (jump_refs ?top)"
    from st1 False have top: "frame_ok ?m1 ?top" by (simp add: list_all_iff)
    then have "list_all (\<lambda>e. has_edge jumps ?m1 (snd e)) ?refs"
      using edge by (intro list_all_smap_modify) (simp_all add: frame_ok_def)
    with top have top': "frame_ok ?m1 (?top\<lparr>jump_refs := ?refs\<rparr>)"
      by (simp add: frame_ok_def)
    from st1 have "list_all (frame_ok ?m1) (butlast (call_stack s))" by (rule list_all_butlast)
    with top' have "list_all (frame_ok ?m1) (butlast (call_stack s) @ [?top\<lparr>jump_refs := ?refs\<rparr>])"
      by simp
    with wf1 False show ?thesis by (simp add: wf_state_def ProcessJump_def Let_def)
  qed
qed

lemma wf_state_ProcessCall:
  assumes "wf_state s"
  shows "wf_state (ProcessCall s a r)"
proof -
  let ?m = "instruction_costs s"
  let ?pc = "current_pc s"
  let ?g = "\<lambda>c. c\<lparr>calls := smap_modify
              (\<lambda>i. if ?pc \<noteq> 0 then i\<lparr>call_count := call_count i + 1\<rparr> else i)
              CallInfo_new a (calls c)\<rparr>"
  let ?m1 = "smap_modify ?g InstructionCost_new ?pc ?m"
  from assms have wf: "wf_costs ?m" and st: "list_all (frame_ok ?m) (call_stack s)"
    by (simp_all add: wf_state_def)
  from modify_wf [OF wf grows_calls_modify, of _ CallInfo_new a ?pc]
  have wf1: "wf_costs ?m1" and ex1: "extends ?m ?m1" by simp_all
  from frames_ok_extends [OF ex1 st] have st1: "list_all (frame_ok ?m1) (call_stack s)" .
  have "has_edge calls ?m1 (?pc, a)"
    by (rule has_edge_new) (simp add: keys_smap_modify)
  then have "frame_ok ?m1 (CallFrame_new a ?pc (?pc + 2 + r) (?pc, a))"
    by (simp add: frame_ok_def CallFrame_new_def)
  with wf1 st1 show ?thesis by (simp add: wf_state_def ProcessCall_def Let_def)
qed

lemma wf_state_ProcessReturn:
  assumes "wf_state s"
  shows "wf_state (ProcessReturn s a)"
proof -
  from assms have wf: "wf_costs (instruction_costs s)"
    and st: "list_all (frame_ok (instruction_costs s)) (call_stack s)"
    by (simp_all add: wf_state_def)
  have costs: "instruction_costs (ProcessReturn s a) = instruction_costs s"
    by (simp add: ProcessReturn_def Let_def)
  have "list_all (frame_ok (instruction_costs s)) (call_stack (ProcessReturn s a))"
    unfolding ProcessReturn_def Let_def pop_all_Nil
    using st list_all_butlast [OF st] list_all_pop_frames [OF st]
    by (simp split: option.split del: pop_all.simps)
  with wf costs show ?thesis by (simp add: wf_state_def)
qed

lemma wf_state_counting:
  assumes "wf_state s" and "grows f"
  shows "wf_state (s\<lparr>instruction_costs :=
            for_all_frames h (call_stack s)
              (if current_pc s \<noteq> 0
               then smap_modify f InstructionCost_new (current_pc s) (instruction_costs s)
               else instruction_costs s)\<rparr>)"
proof -
  let ?m = "instruction_costs s"
  let ?m1 = "if current_pc s \<noteq> 0 then smap_modify f InstructionCost_new (current_pc s) ?m else ?m"
  from assms have wf: "wf_costs ?m" and st: "list_all (frame_ok ?m) (call_stack s)"
    by (simp_all add: wf_state_def)
  from modify_wf [OF wf assms(2), of "current_pc s"]
  have wf1: "wf_costs ?m1" and ex1: "extends ?m ?m1" using wf by (simp_all add: extends_refl)
  from frames_ok_extends [OF ex1 st] have st1: "list_all (frame_ok ?m1) (call_stack s)" .
  from for_all_frames_wf [OF wf1, of h "call_stack s"]
  have wf2: "wf_costs (for_all_frames h (call_stack s) ?m1)"
    and ex2: "extends ?m1 (for_all_frames h (call_stack s) ?m1)" by simp_all
  from frames_ok_extends [OF ex2 st1] wf2 show ?thesis by (simp add: wf_state_def)
qed

lemma wf_state_ProcessDataRead: "wf_state s \<Longrightarrow> wf_state (ProcessDataRead s a)"
  unfolding ProcessDataRead_def Let_def by (rule wf_state_counting [OF _ grows_data_reads])

lemma wf_state_ProcessDataWrite: "wf_state s \<Longrightarrow> wf_state (ProcessDataWrite s a)"
  unfolding ProcessDataWrite_def Let_def by (rule wf_state_counting [OF _ grows_data_writes])

lemma wf_state_ProcessInstrRead: "wf_state s \<Longrightarrow> wf_state (ProcessInstrRead s a)"
  unfolding ProcessInstrRead_def Let_def by (rule wf_state_counting [OF _ grows_instr_fetches])

lemma wf_state_ProcessEvent: "wf_state s \<Longrightarrow> wf_state (ProcessEvent s e)"
  by (simp add: ProcessEvent_def Let_def wf_state_ProcessInstructionExecute wf_state_ProcessJump
      wf_state_ProcessCall wf_state_ProcessReturn wf_state_ProcessDataRead wf_state_ProcessDataWrite
      wf_state_ProcessInstrRead split: option.split EventType.split)

text \<open>
  In every state reached from a cleared one the maps are strictly ascending and every
  reference held by a frame resolves to an entry of the table, so that the mutations
  through references never miss.
\<close>

lemma wf_state_ProcessEvents: "wf_state (ProcessEvents (Clear s) evs)"
proof -
  have "wf_state s' \<Longrightarrow> wf_state (foldl ProcessEvent s' evs)" for s'
    by (induction evs arbitrary: s') (simp_all add: wf_state_ProcessEvent)
  then show ?thesis unfolding ProcessEvents_def using wf_state_Clear by blast
qed

lemma via_call_hits:
  assumes "has_edge calls m r"
  shows "\<exists>c i. map_of m (fst r) = Some c \<and> map_of (calls c) (snd r) = Some i \<and>
           map_of (via_call f r m) (fst r) = Some (c\<lparr>calls := smap_at f (snd r) (calls c)\<rparr>) \<and>
           map_of (smap_at f (snd r) (calls c)) (snd r) = Some (f i)"
proof -
  from assms obtain c where c: "map_of m (fst r) = Some c" "snd r \<in> fst ` set (calls c)"
    by (auto simp: has_edge_def split: option.splits)
  from c(2) obtain i where i: "map_of (calls c) (snd r) = Some i"
    by (metis domD dom_map_of_conv_image_fst)
  from c(1) i show ?thesis by (simp add: via_call_def map_of_smap_at)
qed

lemma via_jump_hits:
  assumes "has_edge jumps m r"
  shows "\<exists>c i. map_of m (fst r) = Some c \<and> map_of (jumps c) (snd r) = Some i \<and>
           map_of (via_jump f r m) (fst r) = Some (c\<lparr>jumps := smap_at f (snd r) (jumps c)\<rparr>) \<and>
           map_of (smap_at f (snd r) (jumps c)) (snd r) = Some (f i)"
proof -
  from assms obtain c where c: "map_of m (fst r) = Some c" "snd r \<in> fst ` set (jumps c)"
    by (auto simp: has_edge_def split: option.splits)
  from c(2) obtain i where i: "map_of (jumps c) (snd r) = Some i"
    by (metis domD dom_map_of_conv_image_fst)
  from c(1) i show ?thesis by (simp add: via_jump_def map_of_smap_at)
qed

section \<open>The recorders agree with the decoder\<close>

text \<open>
  The recorders of \<open>profiler_events.h\<close> put the type where \<open>GetEventType\<close> reads it
  (for a call, with the return offset below 16 as it fits the four bits of its field).
\<close>

lemma low24_high: "drop_bit 28 (a AND (0xFFFFFF :: u32)) = 0"
proof -
  have "a AND (0xFFFFFF :: u32) = take_bit 24 a"
    by (simp add: take_bit_eq_mask mask_eq_exp_minus_1)
  then show ?thesis by (simp add: drop_bit_take_bit)
qed

lemma low24_idem: "(a AND (0xFFFFFF :: u32)) AND 0xFFFFFF = a AND 0xFFFFFF"
  by (simp add: and.assoc)

lemma offset_high: "r < 16 \<Longrightarrow> drop_bit 28 (push_bit 24 (r :: u32)) = 0"
proof -
  assume "r < 16"
  then have "r < 2 ^ 4" by simp
  then have "r AND mask 4 = r" by (rule less_mask_eq)
  then have tb: "take_bit 4 r = r" by (simp add: take_bit_eq_mask)
  have nb: "\<not> bit r (4 + n)" for n
  proof
    assume "bit r (4 + n)"
    then have "bit (take_bit 4 r) (4 + n)" using tb by simp
    then show False by (simp add: bit_take_bit_iff)
  qed
  show ?thesis
  proof (rule bit_word_eqI)
    fix n assume "n < LENGTH(32)"
    have "bit (drop_bit 28 (push_bit 24 r)) n \<longleftrightarrow> bit (push_bit 24 r) (28 + n)"
      by (simp add: bit_drop_bit_eq)
    also have "\<dots> \<longrightarrow> bit r (4 + n)"
      by (simp add: bit_push_bit_iff)
    finally show "bit (drop_bit 28 (push_bit 24 r)) n \<longleftrightarrow> bit (0 :: u32) n"
      using nb [of n] by simp
  qed
qed

lemma recorders_decode:
  "(\<forall>a r. c = RecordCall a r \<longrightarrow> r < 16) \<Longrightarrow> GetEventType (event_word c) = Some (call_type c)"
  by (cases c) (simp_all add: GetEventType_def drop_bit_or low24_high offset_high EventType_cast_def)

end
